theory Spec2Isabelle
  imports Complex_Main
begin

section \<open>The compand filter of libavfilter (af\_compand.c)\<close>

text \<open>
  A shallow embedding of \<^verbatim>\<open>src/libavfilter/af_compand.c\<close>.

  Conventions.
  \<^item> C \<^verbatim>\<open>int\<close> fields are \<open>int\<close>; loop counters that the code only counts upwards
    from a non-negative start are \<open>nat\<close>.  No counter of the modelled code can reach
    \<^verbatim>\<open>INT_MAX\<close>: each is bounded by a sample count or by the number of control points.
  \<^item> C \<^verbatim>\<open>float\<close> and \<^verbatim>\<open>double\<close> values are real numbers.  The arithmetic of the curve
    builder and of the curve evaluator (\<^verbatim>\<open>exp\<close>, \<^verbatim>\<open>logf\<close>, \<^verbatim>\<open>atan2\<close>, \<^verbatim>\<open>sqrt\<close>, ...) is exact
    real arithmetic; infinities and NaN do not exist in the model, and a division by
    zero, which C evaluates to an infinity or a NaN, is HOL's \<open>x / 0 = 0\<close>.  No
    statement below depends on the value of such a quotient.
    The envelope follower \<^verbatim>\<open>update_volume\<close> is the one place where the exact value of
    a \<^verbatim>\<open>float\<close> computation is at stake, so its three \<^verbatim>\<open>float\<close> operations carry the
    rounding to binary32.
  \<^item> Arrays are lists.  Where the C code reads or writes an array under a loop without
    an explicit bound (a sentinel loop), or at an index kept in the filter state, the
    model checks the index and returns a fault value where C has undefined behaviour.
  \<^item> Timestamps (\<^verbatim>\<open>pts\<close>) are not modelled.
\<close>

subsection \<open>Results and faults\<close>

text \<open>
  \<open>EINVAL\<close>, \<open>ENOMEM\<close>, \<open>AVERROR_EOF\<close> and \<open>HostError\<close> are return codes of the C functions.  The other
  constructors are not return codes: they mark the places where the C code has
  undefined behaviour (a read past an array, \<^verbatim>\<open>sscanf\<close> on a null pointer, the use of
  an uninitialised variable, a conversion out of the range of \<^verbatim>\<open>int\<close>, a call through
  a null function pointer) or leaves the
  real numbers (\<^verbatim>\<open>logf\<close> of a number that is not positive).
\<close>

datatype error =
    EINVAL
  | ENOMEM
  | AVERROR_EOF
  | HostError int
  | SegmentsOverrun
  | LogOfNonPositive
  | DelayBufferOverrun
  | OutputOverrun
  | NullToken
  | UninitialisedIndex
  | IntOutOfRange
  | NullFunction

subsection \<open>Data\<close>

record ChanParam =
  attack :: real
  decay :: real
  volume :: real

text \<open>The fields \<^verbatim>\<open>x, y, a, b\<close> of \<^verbatim>\<open>CompandSegment\<close>, prefixed.\<close>

record CompandSegment =
  seg_x :: real
  seg_y :: real
  seg_a :: real
  seg_b :: real

text \<open>
  The two functions the pointer \<^verbatim>\<open>s->compand\<close> can hold; the pointer is null (\<open>None\<close>)
  until \<^verbatim>\<open>config_output\<close> has set it.
\<close>

datatype compand_fn = Compand_nodelay | Compand_delay

text \<open>
  An audio frame in planar float format: \<open>extended_data f ! chan ! i\<close> is sample \<open>i\<close>
  of channel \<open>chan\<close>.
\<close>

record AVFrame =
  nb_samples :: int
  extended_data :: "real list list"

record CompandContext =
  nb_channels :: int
  attacks :: string
  decays :: string
  points :: string
  segments :: "CompandSegment list"
  channels :: "ChanParam list"
  in_min_lin :: real
  out_min_lin :: real
  curve_dB :: real
  gain_dB :: real
  initial_volume :: real
  delay :: real
  delay_frame :: "AVFrame option"
  delay_samples :: int
  delay_count :: int
  delay_index :: int
  compand :: "compand_fn option"

text \<open>
  What the libraries answer when the filter calls them: whether \<^verbatim>\<open>av_mallocz_array\<close>,
  \<^verbatim>\<open>av_frame_alloc\<close> and \<^verbatim>\<open>ff_get_audio_buffer\<close> return memory, the return values of
  \<^verbatim>\<open>av_frame_get_buffer\<close> and \<^verbatim>\<open>av_frame_copy_props\<close>, whether the input frame is
  writable, and what \<^verbatim>\<open>sscanf\<close> reads: \<open>sscanf_f h t = Some v\<close> when
  \<^verbatim>\<open>sscanf(t, "%f", &v)\<close> returns 1, and \<open>sscanf_ff h t = Some (x, y)\<close> when
  \<^verbatim>\<open>sscanf(t, "%f/%f", &x, &y)\<close> returns 2; \<open>None\<close> stands for every other return
  value.
\<close>

record host =
  malloc_ok :: bool
  frame_alloc_ok :: bool
  get_buffer_err :: int
  audio_buffer_ok :: bool
  copy_props_err :: int
  frame_writable :: bool
  sscanf_f :: "string \<Rightarrow> real option"
  sscanf_ff :: "string \<Rightarrow> (real \<times> real) option"

subsection \<open>Helpers of libavutil\<close>

text \<open>
  Modelled from the spec: \<^verbatim>\<open>av_clipf\<close> of \<^verbatim>\<open>libavutil/common.h\<close>, which is not under
  \<^verbatim>\<open>src/\<close>; the spec's ``clamping the result to the representable amplitude range''.
\<close>

definition av_clipf :: "real \<Rightarrow> real \<Rightarrow> real \<Rightarrow> real" where
  "av_clipf v amin amax = (if v < amin then amin else if v > amax then amax else v)"

text \<open>
  Modelled from the spec: the macro \<^verbatim>\<open>FFMIN\<close> of \<^verbatim>\<open>libavutil/common.h\<close>, which is not
  under \<^verbatim>\<open>src/\<close>: the smaller of its two arguments.
\<close>

definition FFMIN :: "'a::linorder \<Rightarrow> 'a \<Rightarrow> 'a" where
  "FFMIN u v = (if u > v then v else u)"

text \<open>
  Modelled from the spec: \<^verbatim>\<open>ff_get_audio_buffer\<close> of \<^verbatim>\<open>libavfilter/audio.h\<close>, which is
  not under \<^verbatim>\<open>src/\<close>: a frame of \<open>n\<close> samples of silence for each channel.
\<close>

definition ff_get_audio_buffer :: "int \<Rightarrow> int \<Rightarrow> AVFrame" where
  "ff_get_audio_buffer nch n =
     \<lparr>nb_samples = n, extended_data = replicate (nat nch) (replicate (nat n) 0)\<rparr>"

text \<open>The macro \<^verbatim>\<open>MOD\<close> of line 217.\<close>

definition MOD :: "int \<Rightarrow> int \<Rightarrow> int" where
  "MOD u v = (if u \<ge> v then u - v else u)"

subsection \<open>Rounding to binary32\<close>

text \<open>
  The value a real number takes when it is stored in a \<^verbatim>\<open>float\<close>: the nearest number
  with a 24-bit significand, ties to the even significand, with the exponent bounded
  below (subnormal numbers).  Overflow to an infinity is not modelled.
\<close>

definition round_to_even :: "real \<Rightarrow> int" where
  "round_to_even q =
     (let n = \<lfloor>q\<rfloor>; d = q - of_int n in
      if d < 1 / 2 then n else if 1 / 2 < d then n + 1 else if even n then n else n + 1)"

definition float_ulp :: "real \<Rightarrow> real" where
  "float_ulp v = 2 powr (of_int (max \<lfloor>log 2 \<bar>v\<bar>\<rfloor> (- 126)) - 23)"

definition to_float :: "real \<Rightarrow> real" where
  "to_float v = (if v = 0 then 0 else of_int (round_to_even (v / float_ulp v)) * float_ulp v)"

subsection \<open>The envelope follower\<close>

text \<open>
  \<^verbatim>\<open>update_volume\<close>, lines 142--150.  \<open>delta\<close>, the product and the sum are \<^verbatim>\<open>float\<close>
  values.
\<close>

definition update_volume :: "ChanParam \<Rightarrow> real \<Rightarrow> ChanParam" where
  "update_volume cp inp =
     (let delta = to_float (inp - volume cp) in
      if delta > 0
      then cp\<lparr>volume := to_float (volume cp + to_float (delta * attack cp))\<rparr>
      else cp\<lparr>volume := to_float (volume cp + to_float (delta * decay cp))\<rparr>)"

subsection \<open>The curve evaluator\<close>

text \<open>
  The scan \<^verbatim>\<open>for (i = 1;; i++) if (in_log <= s->segments[i + 1].x) break;\<close> of
  \<^verbatim>\<open>get_volume\<close>.  The loop has no bound of its own; a read at or past the length of
  the array is the fault \<open>SegmentsOverrun\<close>.
\<close>

function scan_segments :: "CompandSegment list \<Rightarrow> real \<Rightarrow> nat \<Rightarrow> error + nat" where
  "scan_segments segs in_log i =
     (if length segs \<le> i + 1 then Inl SegmentsOverrun
      else if in_log \<le> seg_x (segs ! (i + 1)) then Inr i
      else scan_segments segs in_log (i + 1))"
  by pat_completeness auto
termination
  by (relation "measure (\<lambda>(segs, in_log, i). length segs - i)") auto

declare scan_segments.simps [simp del]

text \<open>\<^verbatim>\<open>get_volume\<close>, lines 152--172.\<close>

definition get_volume :: "CompandContext \<Rightarrow> real \<Rightarrow> error + real" where
  "get_volume s in_lin =
     (if in_lin < in_min_lin s then Inr (out_min_lin s)
      else if in_lin \<le> 0 then Inl LogOfNonPositive
      else
        (case scan_segments (segments s) (ln in_lin) 1 of
           Inl e \<Rightarrow> Inl e
         | Inr i \<Rightarrow>
             (let cs = segments s ! i;
                  in_log = ln in_lin - seg_x cs;
                  out_log = seg_y cs + in_log * (seg_a cs * in_log + seg_b cs)
              in Inr (exp out_log))))"

subsection \<open>Processing without delay\<close>






subsection \<open>Processing with delay\<close>

text \<open>
  The variables the sample loop of \<^verbatim>\<open>compand_delay\<close> works on: the channel's envelope
  \<^verbatim>\<open>*cp\<close>, its delay buffer \<^verbatim>\<open>dbuf\<close>, the output frame (null until the first output
  sample), \<^verbatim>\<open>oindex\<close>, \<^verbatim>\<open>count\<close> and \<^verbatim>\<open>dindex\<close>.
\<close>

record delay_loop =
  dl_cp :: ChanParam
  dl_dbuf :: "real list"
  dl_out :: "AVFrame option"
  dl_oindex :: nat
  dl_count :: int
  dl_dindex :: int

text \<open>
  Lines 243--260: the branch \<^verbatim>\<open>count >= s->delay_samples\<close>.  The output frame is
  allocated at the first output sample, with room for the \<^verbatim>\<open>nb_samples - i\<close> samples
  still to come; the sample read from the delay buffer at \<^verbatim>\<open>dindex\<close> is scaled and
  stored at \<^verbatim>\<open>oindex\<close>.
\<close>

definition delay_emit ::
  "host \<Rightarrow> CompandContext \<Rightarrow> AVFrame \<Rightarrow> nat \<Rightarrow> nat \<Rightarrow> delay_loop \<Rightarrow> error + delay_loop" where
  "delay_emit h s frame chan i st =
     (case (case dl_out st of
              Some f \<Rightarrow> Inr f
            | None \<Rightarrow>
                if \<not> audio_buffer_ok h then Inl ENOMEM
                else if copy_props_err h < 0 then Inl (HostError (copy_props_err h))
                else Inr (ff_get_audio_buffer (nb_channels s) (nb_samples frame - int i))) of
        Inl e \<Rightarrow> Inl e
      | Inr f \<Rightarrow>
          if \<not> (0 \<le> dl_dindex st \<and> nat (dl_dindex st) < length (dl_dbuf st))
          then Inl DelayBufferOverrun
          else
            (case get_volume s (volume (dl_cp st)) of
               Inl e \<Rightarrow> Inl e
             | Inr g \<Rightarrow>
                 if \<not> (chan < length (extended_data f) \<and>
                        dl_oindex st < length (extended_data f ! chan))
                 then Inl OutputOverrun
                 else
                   Inr (st\<lparr>dl_out :=
                              Some (f\<lparr>extended_data :=
                                (extended_data f)[chan :=
                                  (extended_data f ! chan)[dl_oindex st :=
                                    av_clipf (dl_dbuf st ! nat (dl_dindex st) * g) (- 1) 1]]\<rparr>),
                            dl_oindex := dl_oindex st + 1\<rparr>)))"

text \<open>Lines 239--266: the body of the sample loop, for sample \<open>i\<close> of channel \<open>chan\<close>.\<close>

definition delay_sample ::
  "host \<Rightarrow> CompandContext \<Rightarrow> AVFrame \<Rightarrow> nat \<Rightarrow> nat \<Rightarrow> delay_loop \<Rightarrow> error + delay_loop" where
  "delay_sample h s frame chan i st =
     (let inp = extended_data frame ! chan ! i;
          cp = update_volume (dl_cp st) \<bar>inp\<bar>
      in
        case (if dl_count st \<ge> delay_samples s
              then delay_emit h s frame chan i (st\<lparr>dl_cp := cp\<rparr>)
              else Inr (st\<lparr>dl_cp := cp, dl_count := dl_count st + 1\<rparr>)) of
          Inl e \<Rightarrow> Inl e
        | Inr st1 \<Rightarrow>
            if \<not> (0 \<le> dl_dindex st1 \<and> nat (dl_dindex st1) < length (dl_dbuf st1))
            then Inl DelayBufferOverrun
            else
              Inr (st1\<lparr>dl_dbuf := (dl_dbuf st1)[nat (dl_dindex st1) := inp],
                        dl_dindex := MOD (dl_dindex st1 + 1) (delay_samples s)\<rparr>))"

text \<open>The sample loop, line 238.\<close>

function delay_samples_loop ::
  "host \<Rightarrow> CompandContext \<Rightarrow> AVFrame \<Rightarrow> nat \<Rightarrow> nat \<Rightarrow> delay_loop \<Rightarrow> error + delay_loop" where
  "delay_samples_loop h s frame chan i st =
     (if int i < nb_samples frame then
        (case delay_sample h s frame chan i st of
           Inl e \<Rightarrow> Inl e
         | Inr st' \<Rightarrow> delay_samples_loop h s frame chan (i + 1) st')
      else Inr st)"
  by pat_completeness auto
termination
  by (relation "measure (\<lambda>(h, s, frame, chan, i, st). nat (nb_samples frame) - i)") auto

declare delay_samples_loop.simps [simp del]

text \<open>
  What the channel loop of \<^verbatim>\<open>compand_delay\<close> carries from one channel to the next: the
  envelopes, the delay frame, the output frame, and the locals \<^verbatim>\<open>count\<close> and \<^verbatim>\<open>dindex\<close>.
\<close>

record delay_chans =
  dc_channels :: "ChanParam list"
  dc_frame :: AVFrame
  dc_out :: "AVFrame option"
  dc_count :: int
  dc_dindex :: int

text \<open>
  The channel loop, lines 229--268.  Every channel starts again from
  \<^verbatim>\<open>s->delay_count\<close> and \<^verbatim>\<open>s->delay_index\<close>, which are written only after the loop.
\<close>

function delay_channels_loop ::
  "host \<Rightarrow> CompandContext \<Rightarrow> AVFrame \<Rightarrow> nat \<Rightarrow> delay_chans \<Rightarrow> error + delay_chans" where
  "delay_channels_loop h s frame chan st =
     (if int chan < nb_channels s then
        (if length (extended_data (dc_frame st)) \<le> chan then Inl DelayBufferOverrun
         else
           case delay_samples_loop h s frame chan 0
                  \<lparr>dl_cp = dc_channels st ! chan,
                   dl_dbuf = extended_data (dc_frame st) ! chan,
                   dl_out = dc_out st, dl_oindex = 0,
                   dl_count = delay_count s, dl_dindex = delay_index s\<rparr> of
             Inl e \<Rightarrow> Inl e
           | Inr r \<Rightarrow>
               delay_channels_loop h s frame (chan + 1)
                 \<lparr>dc_channels = (dc_channels st)[chan := dl_cp r],
                  dc_frame = (dc_frame st)
                    \<lparr>extended_data := (extended_data (dc_frame st))[chan := dl_dbuf r]\<rparr>,
                  dc_out = dl_out r, dc_count = dl_count r, dc_dindex = dl_dindex r\<rparr>)
      else Inr st)"
  by pat_completeness auto
termination
  by (relation "measure (\<lambda>(h, s, frame, chan, st). nat (nb_channels s) - chan)") auto

declare delay_channels_loop.simps [simp del]

text \<open>
  \<^verbatim>\<open>compand_delay\<close>, lines 219--275.  The function is installed only after the delay
  frame has been allocated; a null delay frame is a fault.  The result is the new
  state and the frame handed to \<^verbatim>\<open>ff_filter_frame\<close>, if there is one.
\<close>

definition compand_delay ::
  "host \<Rightarrow> CompandContext \<Rightarrow> AVFrame \<Rightarrow> error + CompandContext \<times> AVFrame option" where
  "compand_delay h s frame =
     (case delay_frame s of
        None \<Rightarrow> Inl DelayBufferOverrun
      | Some df \<Rightarrow>
          (case delay_channels_loop h s frame 0
                  \<lparr>dc_channels = channels s, dc_frame = df, dc_out = None,
                   dc_count = 0, dc_dindex = 0\<rparr> of
             Inl e \<Rightarrow> Inl e
           | Inr r \<Rightarrow>
               Inr (s\<lparr>channels := dc_channels r, delay_frame := Some (dc_frame r),
                      delay_count := dc_count r, delay_index := dc_dindex r\<rparr>,
                    dc_out r)))"

subsection \<open>Draining the delay line\<close>

text \<open>
  The sample loop of \<^verbatim>\<open>compand_drain\<close>, lines 299--302, for one channel: \<open>n\<close> is
  \<^verbatim>\<open>frame->nb_samples\<close>, the state is the output buffer \<^verbatim>\<open>dst\<close> and \<^verbatim>\<open>dindex\<close>.  The
  envelope \<open>cp\<close> is only read.
\<close>

function drain_samples_loop ::
  "CompandContext \<Rightarrow> real list \<Rightarrow> ChanParam \<Rightarrow> nat \<Rightarrow> nat \<Rightarrow> real list \<times> int \<Rightarrow>
   error + real list \<times> int" where
  "drain_samples_loop s dbuf cp n i st =
     (if i < n then
        (if \<not> (0 \<le> snd st \<and> nat (snd st) < length dbuf) then Inl DelayBufferOverrun
         else
           case get_volume s (volume cp) of
             Inl e \<Rightarrow> Inl e
           | Inr g \<Rightarrow>
               if length (fst st) \<le> i then Inl OutputOverrun
               else drain_samples_loop s dbuf cp n (i + 1)
                      ((fst st)[i := av_clipf (dbuf ! nat (snd st) * g) (- 1) 1],
                       MOD (snd st + 1) (delay_samples s)))
      else Inr st)"
  by pat_completeness auto
termination
  by (relation "measure (\<lambda>(s, dbuf, cp, n, i, st). n - i)") auto

declare drain_samples_loop.simps [simp del]

text \<open>
  The channel loop of \<^verbatim>\<open>compand_drain\<close>, lines 292--303.  The local \<^verbatim>\<open>dindex\<close> has no
  value before the first channel: it is \<open>None\<close> until a channel has been processed.
\<close>

function drain_channels_loop ::
  "CompandContext \<Rightarrow> AVFrame \<Rightarrow> nat \<Rightarrow> AVFrame \<times> int option \<Rightarrow>
   error + AVFrame \<times> int option" where
  "drain_channels_loop s df chan st =
     (if int chan < nb_channels s then
        (if length (extended_data df) \<le> chan then Inl DelayBufferOverrun
         else if length (extended_data (fst st)) \<le> chan then Inl OutputOverrun
         else
           case drain_samples_loop s (extended_data df ! chan) (channels s ! chan)
                  (nat (nb_samples (fst st))) 0
                  (extended_data (fst st) ! chan, delay_index s) of
             Inl e \<Rightarrow> Inl e
           | Inr r \<Rightarrow>
               drain_channels_loop s df (chan + 1)
                 ((fst st)\<lparr>extended_data := (extended_data (fst st))[chan := fst r]\<rparr>,
                  Some (snd r)))
      else Inr st)"
  by pat_completeness auto
termination
  by (relation "measure (\<lambda>(s, df, chan, st). nat (nb_channels s) - chan)") auto

declare drain_channels_loop.simps [simp del]

text \<open>
  \<^verbatim>\<open>compand_drain\<close>, lines 277--308.  \<^verbatim>\<open>ff_get_audio_buffer\<close> returns no frame for a
  negative number of samples.
\<close>

definition compand_drain :: "host \<Rightarrow> CompandContext \<Rightarrow> error + CompandContext \<times> AVFrame" where
  "compand_drain h s =
     (if \<not> audio_buffer_ok h \<or> FFMIN 2048 (delay_count s) < 0 then Inl ENOMEM
      else
        case delay_frame s of
          None \<Rightarrow> Inl DelayBufferOverrun
        | Some df \<Rightarrow>
            (case drain_channels_loop s df 0
                    (ff_get_audio_buffer (nb_channels s) (FFMIN 2048 (delay_count s)), None) of
               Inl e \<Rightarrow> Inl e
             | Inr (frame, None) \<Rightarrow> Inl UninitialisedIndex
             | Inr (frame, Some dindex) \<Rightarrow>
                 Inr (s\<lparr>delay_count := delay_count s - nb_samples frame,
                        delay_index := dindex\<rparr>, frame)))"

subsection \<open>The pads\<close>




subsection \<open>Parsing the options\<close>

text \<open>\<^verbatim>\<open>count_items\<close>, lines 131--140: one more than the number of \<^verbatim>\<open>'|'\<close>.\<close>

definition count_items :: "string \<Rightarrow> int" where
  "count_items item_str = fold (\<lambda>c n. if c = CHR ''|'' then n + 1 else n) item_str 1"

text \<open>
  \<^verbatim>\<open>strtok_r(p, "|", &saveptr)\<close> of the C library, on the text that is left to scan:
  the delimiters in front are skipped; if nothing is left the result is the null
  pointer (\<open>None\<close>), otherwise the token up to the next delimiter and the text after
  that delimiter.  In each of the three loops of \<^verbatim>\<open>config_output\<close> the first call scans
  the option string and the later calls scan what \<^verbatim>\<open>saveptr\<close> points to.
\<close>

definition strtok_r :: "string \<Rightarrow> (string \<times> string) option" where
  "strtok_r str =
     (let str1 = dropWhile (\<lambda>c. c = CHR ''|'') str in
      if str1 = [] then None
      else Some (takeWhile (\<lambda>c. c \<noteq> CHR ''|'') str1,
                 drop 1 (dropWhile (\<lambda>c. c \<noteq> CHR ''|'') str1)))"

text \<open>
  The loops of lines 350--359 (attacks) and 362--371 (decays).  They differ only in
  the field of \<^verbatim>\<open>ChanParam\<close> they fill: \<open>get\<close> reads it and \<open>put\<close> writes it.  The state
  is the text left to scan, the array \<^verbatim>\<open>s->channels\<close> and \<^verbatim>\<open>new_nb_items\<close>.  A token
  that \<^verbatim>\<open>sscanf\<close> cannot read leaves the field as it is and is not counted.
\<close>

function times_loop ::
  "host \<Rightarrow> (ChanParam \<Rightarrow> real) \<Rightarrow> (real \<Rightarrow> ChanParam \<Rightarrow> ChanParam) \<Rightarrow> int \<Rightarrow> nat \<Rightarrow>
   string \<times> ChanParam list \<times> int \<Rightarrow> error + string \<times> ChanParam list \<times> int" where
  "times_loop h get put nb i st =
     (if int i < nb then
        (case strtok_r (fst st) of
           None \<Rightarrow> Inl NullToken
         | Some (tstr, rest) \<Rightarrow>
             (let chans = (case sscanf_f h tstr of
                             None \<Rightarrow> fst (snd st)
                           | Some v \<Rightarrow> (fst (snd st))[i := put v (fst (snd st) ! i)]);
                  new_nb_items = snd (snd st) + (if sscanf_f h tstr = None then 0 else 1)
              in if get (chans ! i) < 0 then Inl EINVAL
                 else times_loop h get put nb (i + 1) (rest, chans, new_nb_items)))
      else Inr st)"
  by pat_completeness auto
termination
  by (relation "measure (\<lambda>(h, get, put, nb, i, st). nat nb - i)") auto

declare times_loop.simps [simp del]

text \<open>The two meanings of the macro \<^verbatim>\<open>S\<close>: lines 380 and 406.\<close>

definition S_first :: "nat \<Rightarrow> nat" where
  "S_first k = 2 * (k + 1)"

definition S_second :: "nat \<Rightarrow> nat" where
  "S_second k = 2 * k"

text \<open>
  The loop over the control points, lines 382--398.  The state is the text left to
  scan, the array \<^verbatim>\<open>s->segments\<close> and \<^verbatim>\<open>new_nb_items\<close>.
\<close>

function points_loop ::
  "host \<Rightarrow> int \<Rightarrow> nat \<Rightarrow> string \<times> CompandSegment list \<times> nat \<Rightarrow>
   error + string \<times> CompandSegment list \<times> nat" where
  "points_loop h nb_points i st =
     (if int i < nb_points then
        (case strtok_r (fst st) of
           None \<Rightarrow> Inl NullToken
         | Some (tstr, rest) \<Rightarrow>
             (case sscanf_ff h tstr of
                None \<Rightarrow> Inl EINVAL
              | Some (px, py) \<Rightarrow>
                  (let segs1 = (fst (snd st))
                         [S_first i := (fst (snd st) ! S_first i)\<lparr>seg_x := px, seg_y := py\<rparr>]
                   in if i \<noteq> 0 \<and> seg_x (segs1 ! S_first (i - 1)) > seg_x (segs1 ! S_first i)
                      then Inl EINVAL
                      else points_loop h nb_points (i + 1)
                             (rest,
                              segs1[S_first i := (segs1 ! S_first i)
                                \<lparr>seg_y := seg_y (segs1 ! S_first i) - seg_x (segs1 ! S_first i)\<rparr>],
                              snd (snd st) + 1))))
      else Inr st)"
  by pat_completeness auto
termination
  by (relation "measure (\<lambda>(h, nb_points, i, st). nat nb_points - i)") auto

declare points_loop.simps [simp del]

subsection \<open>The curve builder\<close>

definition M_LN10 :: real where
  "M_LN10 = ln 10"

text \<open>
  \<^verbatim>\<open>atan2\<close> of the C library on real numbers (there are no signed zeros here).
\<close>

definition atan2 :: "real \<Rightarrow> real \<Rightarrow> real" where
  "atan2 v u =
     (if 0 < u then arctan (v / u)
      else if u < 0 \<and> 0 \<le> v then arctan (v / u) + pi
      else if u < 0 then arctan (v / u) - pi
      else if 0 < v then pi / 2
      else if v < 0 then - (pi / 2)
      else 0)"

text \<open>The inner loop of line 422--423: \<^verbatim>\<open>for (; j < num; j++) S(j) = S(j + 1);\<close>\<close>

function shift_loop :: "nat \<Rightarrow> nat \<Rightarrow> CompandSegment list \<Rightarrow> CompandSegment list" where
  "shift_loop j num segs =
     (if j < num then shift_loop (j + 1) num (segs[S_second j := segs ! S_second (j + 1)])
      else segs)"
  by pat_completeness auto
termination
  by (relation "measure (\<lambda>(j, num, segs). num - j)") auto

declare shift_loop.simps [simp del]

text \<open>
  Joining adjacent colinear segments, lines 413--424.  When the knot \<open>i - 1\<close> is
  removed, \<^verbatim>\<open>num\<close> and \<^verbatim>\<open>i\<close> are decremented, the knots above move down, and the \<^verbatim>\<open>i++\<close>
  of the loop brings \<^verbatim>\<open>i\<close> back: the same \<open>i\<close> is tested again.  The result is \<^verbatim>\<open>num\<close>
  and the array.
\<close>

function join_loop :: "nat \<Rightarrow> nat \<Rightarrow> CompandSegment list \<Rightarrow> nat \<times> CompandSegment list" where
  "join_loop i num segs =
     (if i < num then
        (let g1 = (seg_y (segs ! S_second (i - 1)) - seg_y (segs ! S_second (i - 2))) *
                  (seg_x (segs ! S_second i) - seg_x (segs ! S_second (i - 1)));
             g2 = (seg_y (segs ! S_second i) - seg_y (segs ! S_second (i - 1))) *
                  (seg_x (segs ! S_second (i - 1)) - seg_x (segs ! S_second (i - 2)))
         in if \<bar>g1 - g2\<bar> \<noteq> 0 then join_loop (i + 1) num segs
            else join_loop i (num - 1) (shift_loop (i - 1) (num - 1) segs))
      else (num, segs))"
  by pat_completeness auto
termination
  by (relation "measure (\<lambda>(i, num, segs). num - i)") auto

declare join_loop.simps [simp del]

text \<open>
  The conversion from dB to natural logarithms, lines 426--430.  The loop has no
  bound: it stops after the first knot whose \<open>x\<close> is zero.
\<close>

function db_to_ln_loop ::
  "real \<Rightarrow> nat \<Rightarrow> CompandSegment list \<Rightarrow> error + CompandSegment list" where
  "db_to_ln_loop gain i segs =
     (if i = 0 \<or> seg_x (segs ! (i - 2)) \<noteq> 0 then
        (if length segs \<le> i then Inl SegmentsOverrun
         else db_to_ln_loop gain (i + 2)
                (segs[i := (segs ! i)
                   \<lparr>seg_x := seg_x (segs ! i) * (M_LN10 / 20),
                    seg_y := (seg_y (segs ! i) + gain) * (M_LN10 / 20)\<rparr>]))
      else Inr segs)"
  by pat_completeness auto
termination
  by (relation "measure (\<lambda>(gain, i, segs). length segs - i)") auto

declare db_to_ln_loop.simps [simp del]

text \<open>
  The radius of the rounding on the side of the previous knot (line 444) and on the
  side of the next knot (line 450), from the length of the segment on that side.
\<close>

definition knee_radius_in :: "real \<Rightarrow> real \<Rightarrow> real" where
  "knee_radius_in radius len = FFMIN radius len"

definition knee_radius_out :: "real \<Rightarrow> real \<Rightarrow> real" where
  "knee_radius_out radius len = FFMIN radius (len / 2)"

text \<open>
  The body of the soft-knee loop, lines 434--465, in four steps; \<^verbatim>\<open>L(k)\<close> is the
  segment \<open>i - k\<close>.  Lines 436--440: the slopes of the two segments that meet at
  \<^verbatim>\<open>L(2)\<close>.
\<close>

definition knee_slopes :: "nat \<Rightarrow> CompandSegment list \<Rightarrow> CompandSegment list" where
  "knee_slopes i segs =
     (let s1 = segs[i - 4 := (segs ! (i - 4))
                 \<lparr>seg_a := 0,
                  seg_b := (seg_y (segs ! (i - 2)) - seg_y (segs ! (i - 4))) /
                           (seg_x (segs ! (i - 2)) - seg_x (segs ! (i - 4)))\<rparr>]
      in s1[i - 2 := (s1 ! (i - 2))
              \<lparr>seg_a := 0,
               seg_b := (seg_y (s1 ! i) - seg_y (s1 ! (i - 2))) /
                        (seg_x (s1 ! i) - seg_x (s1 ! (i - 2)))\<rparr>])"

text \<open>
  Lines 442--446: \<^verbatim>\<open>L(3)\<close> becomes the point at distance \<open>r\<close> from \<^verbatim>\<open>L(2)\<close> on the
  segment towards \<^verbatim>\<open>L(4)\<close>.
\<close>

definition knee_entry :: "real \<Rightarrow> nat \<Rightarrow> CompandSegment list \<Rightarrow> CompandSegment list" where
  "knee_entry radius i segs =
     (let theta = atan2 (seg_y (segs ! (i - 2)) - seg_y (segs ! (i - 4)))
                        (seg_x (segs ! (i - 2)) - seg_x (segs ! (i - 4)));
          len = sqrt ((seg_x (segs ! (i - 2)) - seg_x (segs ! (i - 4)))\<^sup>2 +
                      (seg_y (segs ! (i - 2)) - seg_y (segs ! (i - 4)))\<^sup>2);
          r = knee_radius_in radius len
      in segs[i - 3 := (segs ! (i - 3))
                \<lparr>seg_x := seg_x (segs ! (i - 2)) - r * cos theta,
                 seg_y := seg_y (segs ! (i - 2)) - r * sin theta\<rparr>])"

text \<open>
  Lines 448--452: the point \<open>(x, y)\<close> at distance \<open>r\<close> from \<^verbatim>\<open>L(2)\<close> on the segment
  towards \<^verbatim>\<open>L(0)\<close>.
\<close>

definition knee_exit :: "real \<Rightarrow> nat \<Rightarrow> CompandSegment list \<Rightarrow> real \<times> real" where
  "knee_exit radius i segs =
     (let theta = atan2 (seg_y (segs ! i) - seg_y (segs ! (i - 2)))
                        (seg_x (segs ! i) - seg_x (segs ! (i - 2)));
          len = sqrt ((seg_x (segs ! i) - seg_x (segs ! (i - 2)))\<^sup>2 +
                      (seg_y (segs ! i) - seg_y (segs ! (i - 2)))\<^sup>2);
          r = knee_radius_out radius len
      in (seg_x (segs ! (i - 2)) + r * cos theta, seg_y (segs ! (i - 2)) + r * sin theta))"

text \<open>
  Lines 454--465: \<^verbatim>\<open>L(2)\<close> moves to \<open>(x, y)\<close>, and \<^verbatim>\<open>L(3)\<close> gets the coefficients of the
  parabola through the centroid \<open>(cx, cy)\<close>.
\<close>

definition knee_fit :: "nat \<Rightarrow> real \<times> real \<Rightarrow> CompandSegment list \<Rightarrow> CompandSegment list" where
  "knee_fit i xy segs =
     (let cx = (seg_x (segs ! (i - 3)) + seg_x (segs ! (i - 2)) + fst xy) / 3;
          cy = (seg_y (segs ! (i - 3)) + seg_y (segs ! (i - 2)) + snd xy) / 3;
          s4 = segs[i - 2 := (segs ! (i - 2))\<lparr>seg_x := fst xy, seg_y := snd xy\<rparr>];
          in1 = cx - seg_x (s4 ! (i - 3));
          out1 = cy - seg_y (s4 ! (i - 3));
          in2 = seg_x (s4 ! (i - 2)) - seg_x (s4 ! (i - 3));
          out2 = seg_y (s4 ! (i - 2)) - seg_y (s4 ! (i - 3));
          a3 = (out2 / in2 - out1 / in1) / (in2 - in1)
      in s4[i - 3 := (s4 ! (i - 3))\<lparr>seg_a := a3, seg_b := out1 / in1 - a3 * in1\<rparr>])"

definition knee_body :: "real \<Rightarrow> nat \<Rightarrow> CompandSegment list \<Rightarrow> CompandSegment list" where
  "knee_body radius i segs =
     (let s3 = knee_entry radius i (knee_slopes i segs)
      in knee_fit i (knee_exit radius i s3) s3)"

lemma length_knee_slopes [simp]: "length (knee_slopes i segs) = length segs"
  unfolding knee_slopes_def Let_def by (simp only: length_list_update)

lemma length_knee_entry [simp]: "length (knee_entry radius i segs) = length segs"
  unfolding knee_entry_def Let_def by (simp only: length_list_update)

lemma length_knee_fit [simp]: "length (knee_fit i xy segs) = length segs"
  unfolding knee_fit_def Let_def by (simp only: length_list_update)

lemma length_knee_body [simp]: "length (knee_body radius i segs) = length segs"
  unfolding knee_body_def Let_def by simp

text \<open>
  The soft-knee loop, line 433: \<^verbatim>\<open>for (i = 4; s->segments[i - 2].x; i += 2)\<close>.  The loop
  has no bound: it stops at the first knot whose \<open>x\<close> is zero.  The result is the final
  \<^verbatim>\<open>i\<close> and the array.
\<close>

function knee_loop ::
  "real \<Rightarrow> nat \<Rightarrow> CompandSegment list \<Rightarrow> error + nat \<times> CompandSegment list" where
  "knee_loop radius i segs =
     (if seg_x (segs ! (i - 2)) \<noteq> 0 then
        (if length segs \<le> i then Inl SegmentsOverrun
         else knee_loop radius (i + 2) (knee_body radius i segs))
      else Inr (i, segs))"
  by pat_completeness auto
termination
  by (relation "measure (\<lambda>(radius, i, segs). length segs - i)") auto

declare knee_loop.simps [simp del]

text \<open>
  Lines 399--468: from the parsed points (\<open>num\<close> of them, at the even places from 2
  on) to the finished curve.
\<close>

definition build_curve ::
  "real \<Rightarrow> real \<Rightarrow> real \<Rightarrow> nat \<Rightarrow> CompandSegment list \<Rightarrow> error + CompandSegment list" where
  "build_curve curve gain radius new_nb_items segs0 =
     (let num = (if new_nb_items = 0 \<or> seg_x (segs0 ! S_first (new_nb_items - 1)) \<noteq> 0
                 then new_nb_items + 1 else new_nb_items);
          segs1 = segs0[S_second 0 := (segs0 ! S_second 0)
                    \<lparr>seg_x := seg_x (segs0 ! S_second 1) - 2 * curve,
                     seg_y := seg_y (segs0 ! S_second 1)\<rparr>];
          joined = join_loop 2 (num + 1) segs1
      in case db_to_ln_loop gain 0 (snd joined) of
           Inl e \<Rightarrow> Inl e
         | Inr segs2 \<Rightarrow>
             (case knee_loop radius 4 segs2 of
                Inl e \<Rightarrow> Inl e
              | Inr (i, segs3) \<Rightarrow>
                  Inr (segs3[i - 3 := (segs3 ! (i - 3))
                         \<lparr>seg_x := 0, seg_y := seg_y (segs3 ! (i - 2))\<rparr>])))"

subsection \<open>The envelope coefficients and the delay line\<close>

text \<open>
  Lines 476--479 and 480--483: the coefficient for a time constant \<open>t\<close> in seconds.
\<close>

definition time_coefficient :: "int \<Rightarrow> real \<Rightarrow> real" where
  "time_coefficient rate t =
     (if t > 1 / real_of_int rate then 1 - exp (- 1 / (real_of_int rate * t)) else 1)"

text \<open>The body of the loop of lines 473--485.\<close>

definition channel_setup :: "int \<Rightarrow> real \<Rightarrow> ChanParam \<Rightarrow> ChanParam" where
  "channel_setup rate initial cp =
     \<lparr>attack = time_coefficient rate (attack cp),
      decay = time_coefficient rate (decay cp),
      volume = 10 powr (initial / 20)\<rparr>"

text \<open>
  The conversion of a \<^verbatim>\<open>double\<close> to \<^verbatim>\<open>int\<close>: the fraction is dropped.
\<close>

definition double_to_int :: "real \<Rightarrow> int" where
  "double_to_int r = (if r < 0 then \<lceil>r\<rceil> else \<lfloor>r\<rfloor>)"

text \<open>The output link: its number of channels and its sample rate.\<close>

record AVFilterLink =
  link_channels :: int
  sample_rate :: int

text \<open>
  Lines 487--508.  \<^verbatim>\<open>av_frame_get_buffer\<close> leaves the samples of the new delay frame
  uninitialised; the model takes silence.
\<close>

definition config_delay :: "host \<Rightarrow> AVFilterLink \<Rightarrow> CompandContext \<Rightarrow> error + CompandContext" where
  "config_delay h outlink s =
     (let r = delay s * real_of_int (sample_rate outlink) in
      if double_to_int r < - (2 ^ 31) \<or> 2 ^ 31 \<le> double_to_int r then Inl IntOutOfRange
      else
        (let s1 = s\<lparr>delay_samples := double_to_int r\<rparr> in
         if delay_samples s1 \<le> 0 then Inr (s1\<lparr>compand := Some Compand_nodelay\<rparr>)
         else if \<not> frame_alloc_ok h then Inl ENOMEM
         else if get_buffer_err h \<noteq> 0 then Inl (HostError (get_buffer_err h))
         else
           Inr (s1\<lparr>delay_frame :=
                      Some (ff_get_audio_buffer (nb_channels s1) (delay_samples s1)),
                    compand := Some Compand_delay\<rparr>)))"

subsection \<open>The configuration\<close>

text \<open>
  \<^verbatim>\<open>config_output\<close>, lines 310--509, in three parts.  Lines 325--378: the counts, the
  allocation of the two arrays, and the attack and decay times; the result is the
  array \<^verbatim>\<open>s->channels\<close>.
\<close>

definition config_times :: "host \<Rightarrow> AVFilterLink \<Rightarrow> CompandContext \<Rightarrow> error + ChanParam list" where
  "config_times h outlink s =
     (let nch = link_channels outlink;
          nb_attacks = count_items (attacks s);
          nb_decays = count_items (decays s)
      in
        if nch \<le> 0 then Inl EINVAL
        else if nb_attacks > nch \<or> nb_decays > nch then Inl EINVAL
        else if \<not> malloc_ok h then Inl ENOMEM
        else
          case times_loop h attack (\<lambda>v cp. cp\<lparr>attack := v\<rparr>) nb_attacks 0
                 (attacks s, replicate (nat nch) \<lparr>attack = 0, decay = 0, volume = 0\<rparr>, 0) of
            Inl e \<Rightarrow> Inl e
          | Inr st_a \<Rightarrow>
              (case times_loop h decay (\<lambda>v cp. cp\<lparr>decay := v\<rparr>) nb_decays 0
                      (decays s, fst (snd st_a), 0) of
                 Inl e \<Rightarrow> Inl e
               | Inr st_d \<Rightarrow>
                   if snd (snd st_a) \<noteq> snd (snd st_d) then Inl EINVAL
                   else Inr (fst (snd st_d))))"

text \<open>
  Lines 380--468: the control points and the curve; the result is the array
  \<^verbatim>\<open>s->segments\<close>, which was allocated (line 343) with \<open>(nb_points + 4) * 2\<close> zeroed
  entries.
\<close>

definition config_curve :: "host \<Rightarrow> CompandContext \<Rightarrow> error + CompandSegment list" where
  "config_curve h s =
     (let nb_points = count_items (points s) in
      case points_loop h nb_points 0
             (points s,
              replicate (nat ((nb_points + 4) * 2))
                \<lparr>seg_x = 0, seg_y = 0, seg_a = 0, seg_b = 0\<rparr>, 0) of
        Inl e \<Rightarrow> Inl e
      | Inr st_p \<Rightarrow>
          build_curve (curve_dB s) (gain_dB s) (curve_dB s * M_LN10 / 20)
            (snd (snd st_p)) (fst (snd st_p)))"

text \<open>
  The whole function: lines 470--485 set the floor of the curve and the envelope
  coefficients, lines 487--508 the delay line.  \<^verbatim>\<open>uninit\<close> (line 339) has freed an
  earlier delay frame.
\<close>

definition config_output :: "host \<Rightarrow> AVFilterLink \<Rightarrow> CompandContext \<Rightarrow> error + CompandContext" where
  "config_output h outlink s =
     (case config_times h outlink s of
        Inl e \<Rightarrow> Inl e
      | Inr chans \<Rightarrow>
          (case config_curve h s of
             Inl e \<Rightarrow> Inl e
           | Inr segs \<Rightarrow>
               config_delay h outlink
                 (s\<lparr>nb_channels := link_channels outlink,
                    channels :=
                      map (channel_setup (sample_rate outlink) (initial_volume s)) chans,
                    segments := segs,
                    in_min_lin := exp (seg_x (segs ! 1)),
                    out_min_lin := exp (seg_y (segs ! 1)),
                    delay_frame := None\<rparr>)))"

subsection \<open>Invariants of the delay line\<close>

definition delay_inv :: "CompandContext \<Rightarrow> bool" where
  "delay_inv s \<longleftrightarrow>
     0 \<le> delay_index s \<and> delay_index s < delay_samples s \<and>
     0 \<le> delay_count s \<and> delay_count s \<le> delay_samples s"

definition buffers_ok :: "int \<Rightarrow> int \<Rightarrow> AVFrame \<Rightarrow> bool" where
  "buffers_ok nch n f \<longleftrightarrow>
     length (extended_data f) = nat nch \<and> (\<forall>d \<in> set (extended_data f). length d = nat n)"

definition loop_inv :: "CompandContext \<Rightarrow> delay_loop \<Rightarrow> bool" where
  "loop_inv s st \<longleftrightarrow>
     0 \<le> dl_dindex st \<and> dl_dindex st < delay_samples s \<and>
     0 \<le> dl_count st \<and> dl_count st \<le> delay_samples s \<and>
     length (dl_dbuf st) = nat (delay_samples s)"

definition out_inv :: "CompandContext \<Rightarrow> AVFrame \<Rightarrow> int \<Rightarrow> nat \<Rightarrow> delay_loop \<Rightarrow> bool" where
  "out_inv s frame c0 i st \<longleftrightarrow>
     int i + c0 = dl_count st + int (dl_oindex st) \<and>
     (dl_oindex st = 0 \<or> dl_count st = delay_samples s) \<and>
     (case dl_out st of
        None \<Rightarrow> dl_oindex st = 0
      | Some f \<Rightarrow>
          nb_samples f = nb_samples frame - int i - (delay_samples s - dl_count st) + int (dl_oindex st) \<and>
          1 \<le> nb_samples f)"

definition frame_count :: "AVFrame option \<Rightarrow> int" where
  "frame_count out = (case out of None \<Rightarrow> 0 | Some f \<Rightarrow> nb_samples f)"

definition chan_inv :: "CompandContext \<Rightarrow> AVFrame \<Rightarrow> nat \<Rightarrow> delay_chans \<Rightarrow> bool" where
  "chan_inv s frame chan dc \<longleftrightarrow>
     0 \<le> dc_dindex dc \<and> dc_dindex dc < delay_samples s \<and>
     0 \<le> dc_count dc \<and> dc_count dc \<le> delay_samples s \<and>
     buffers_ok (nb_channels s) (delay_samples s) (dc_frame dc) \<and>
     (case dc_out dc of
        None \<Rightarrow> True
      | Some f \<Rightarrow> nb_samples f = nb_samples frame + delay_count s - delay_samples s \<and>
                  1 \<le> nb_samples f) \<and>
     (0 < chan \<longrightarrow>
        frame_count (dc_out dc) + dc_count dc = delay_count s + nb_samples frame \<and>
        dc_dindex dc = (delay_index s + nb_samples frame) mod delay_samples s)"

definition delay_buffers_ok :: "CompandContext \<Rightarrow> bool" where
  "delay_buffers_ok s \<longleftrightarrow>
     (case delay_frame s of
        None \<Rightarrow> False
      | Some df \<Rightarrow> buffers_ok (nb_channels s) (delay_samples s) df)"

subsection \<open>The option strings as lists of items\<close>

text \<open>
  The definitions of this subsection are not part of the C code: they name what the
  statements about \<^verbatim>\<open>config_output\<close> are about.  \<open>tokens n str\<close> are the first \<open>n\<close> items
  that \<^verbatim>\<open>strtok_r\<close> finds in \<open>str\<close>, if there are that many.
\<close>

fun tokens :: "nat \<Rightarrow> string \<Rightarrow> string list option" where
  "tokens 0 str = Some []"
| "tokens (Suc n) str =
     (case strtok_r str of
        None \<Rightarrow> None
      | Some (t, rest) \<Rightarrow>
          (case tokens n rest of None \<Rightarrow> None | Some ts \<Rightarrow> Some (t # ts)))"

text \<open>The items of an option string: as many as \<^verbatim>\<open>count_items\<close> counts.\<close>

definition items :: "string \<Rightarrow> string list option" where
  "items str = tokens (nat (count_items str)) str"

text \<open>How many of the items \<^verbatim>\<open>sscanf\<close> reads as a number.\<close>

definition parsed_count :: "host \<Rightarrow> string list \<Rightarrow> int" where
  "parsed_count h toks = int (length (filter (\<lambda>t. sscanf_f h t \<noteq> None) toks))"

text \<open>The time constant an item stands for: an item that cannot be read leaves 0.\<close>

definition time_of :: "host \<Rightarrow> string \<Rightarrow> real" where
  "time_of h t = (case sscanf_f h t of None \<Rightarrow> 0 | Some v \<Rightarrow> v)"

text \<open>The input level of a control point.\<close>

definition point_x :: "host \<Rightarrow> string \<Rightarrow> real" where
  "point_x h t = (case sscanf_ff h t of None \<Rightarrow> 0 | Some (px, py) \<Rightarrow> px)"

text \<open>
  A list of control points as the spec wants it: every point can be read, and the
  input levels do not decrease.
\<close>

definition points_acceptable :: "host \<Rightarrow> string list \<Rightarrow> bool" where
  "points_acceptable h toks \<longleftrightarrow>
     (\<forall>t \<in> set toks. sscanf_ff h t \<noteq> None) \<and> sorted (map (point_x h) toks)"

text \<open>The same, point by point, given the input level of the point before.\<close>

fun points_ok_from :: "host \<Rightarrow> real option \<Rightarrow> string list \<Rightarrow> bool" where
  "points_ok_from h prev [] = True"
| "points_ok_from h prev (t # ts) =
     (case sscanf_ff h t of
        None \<Rightarrow> False
      | Some (px, py) \<Rightarrow>
          (case prev of None \<Rightarrow> True | Some q \<Rightarrow> \<not> q > px) \<and> points_ok_from h (Some px) ts)"

definition configured ::
  "AVFilterLink \<Rightarrow> CompandContext \<Rightarrow> ChanParam list \<Rightarrow> CompandSegment list \<Rightarrow> CompandContext" where
  "configured outlink s chans segs =
     s\<lparr>nb_channels := link_channels outlink,
       channels := map (channel_setup (sample_rate outlink) (initial_volume s)) chans,
       segments := segs,
       in_min_lin := exp (seg_x (segs ! 1)),
       out_min_lin := exp (seg_y (segs ! 1)),
       delay_frame := None\<rparr>"

text \<open>
  The delay line can be set up: the number of delay samples fits an \<^verbatim>\<open>int\<close>, and when it
  is positive the delay frame and its buffers can be allocated.
\<close>

definition delay_setup_ok :: "host \<Rightarrow> AVFilterLink \<Rightarrow> CompandContext \<Rightarrow> bool" where
  "delay_setup_ok h outlink s \<longleftrightarrow>
     - (2 ^ 31) \<le> double_to_int (delay s * real_of_int (sample_rate outlink)) \<and>
     double_to_int (delay s * real_of_int (sample_rate outlink)) < 2 ^ 31 \<and>
     (double_to_int (delay s * real_of_int (sample_rate outlink)) \<le> 0 \<or>
      frame_alloc_ok h \<and> get_buffer_err h = 0)"


text \<open>The length of the segment between two knots.\<close>

definition seg_len :: "CompandSegment \<Rightarrow> CompandSegment \<Rightarrow> real" where
  "seg_len p q = sqrt ((seg_x q - seg_x p)\<^sup>2 + (seg_y q - seg_y p)\<^sup>2)"
section \<open>Properties of the sample processing\<close>

lemma scan_segments_Inl: "scan_segments segs in_log i = Inl e \<Longrightarrow> e = SegmentsOverrun"
proof (induction segs in_log i rule: scan_segments.induct)
  case (1 segs in_log i)
  then show ?case
    by (subst (asm) (2) scan_segments.simps) (auto split: if_splits)
qed

lemma get_volume_Inl:
  "get_volume s v = Inl e \<Longrightarrow> e = SegmentsOverrun \<or> e = LogOfNonPositive"
  by (auto simp: get_volume_def Let_def split: if_splits sum.splits dest: scan_segments_Inl)

lemma delay_emit_keeps:
  "delay_emit h s frame chan i st = Inr st' \<Longrightarrow>
     dl_dbuf st' = dl_dbuf st \<and> dl_dindex st' = dl_dindex st \<and> dl_count st' = dl_count st
     \<and> dl_cp st' = dl_cp st"
  by (auto simp: delay_emit_def split: option.splits if_splits sum.splits)

lemma delay_emit_no_overrun:
  "0 \<le> dl_dindex st \<Longrightarrow> nat (dl_dindex st) < length (dl_dbuf st) \<Longrightarrow>
     delay_emit h s frame chan i st \<noteq> Inl DelayBufferOverrun"
  by (auto simp: delay_emit_def split: option.splits if_splits sum.splits dest: get_volume_Inl)

lemma MOD_range: "0 \<le> d \<Longrightarrow> d < n \<Longrightarrow> 0 \<le> MOD (d + 1) n \<and> MOD (d + 1) n < n"
  by (auto simp: MOD_def)

lemma delay_sample_inv:
  assumes "loop_inv s st"
  shows "delay_sample h s frame chan i st \<noteq> Inl DelayBufferOverrun"
    and "delay_sample h s frame chan i st = Inr st' \<Longrightarrow> loop_inv s st'"
  using assms delay_emit_no_overrun[of "st\<lparr>dl_cp := update_volume (dl_cp st) \<bar>extended_data frame ! chan ! i\<bar>\<rparr>" h s frame chan i]
   apply (auto simp: delay_sample_def loop_inv_def Let_def MOD_def split: if_splits sum.splits dest!: delay_emit_keeps)
  done

lemma delay_sample_out_inv:
  assumes "delay_sample h s frame chan i st = Inr st'"
    and "loop_inv s st" and "out_inv s frame c0 i st" and "int i < nb_samples frame"
  shows "out_inv s frame c0 (i + 1) st'"
  using assms
  by (auto simp: delay_sample_def delay_emit_def loop_inv_def out_inv_def Let_def
        ff_get_audio_buffer_def
      split: if_splits sum.splits option.splits)

lemma delay_samples_loop_inv:
  assumes "delay_samples_loop h s frame chan i st = Inr st'"
    and "loop_inv s st" and "out_inv s frame c0 i st" and "int i \<le> nb_samples frame"
  shows "loop_inv s st' \<and> out_inv s frame c0 (nat (nb_samples frame)) st'"
  using assms
proof (induction h s frame chan i st rule: delay_samples_loop.induct)
  case (1 h s frame chan i st)
  show ?case
  proof (cases "int i < nb_samples frame")
    case True
    with "1.prems"(1) obtain st1 where
      step: "delay_sample h s frame chan i st = Inr st1" and
      rest: "delay_samples_loop h s frame chan (i + 1) st1 = Inr st'"
      by (subst (asm) delay_samples_loop.simps) (auto split: sum.splits)
    have "loop_inv s st1"
      using delay_sample_inv(2)[OF "1.prems"(2) step] .
    moreover have "out_inv s frame c0 (i + 1) st1"
      using delay_sample_out_inv[OF step "1.prems"(2,3) True] .
    ultimately show ?thesis
      using "1.IH"[OF True step rest] True by simp
  next
    case False
    with "1.prems" have "st' = st" "nat (nb_samples frame) = i"
      by (subst (asm) delay_samples_loop.simps; simp)+
    with "1.prems" show ?thesis by simp
  qed
qed

lemma delay_samples_loop_no_overrun:
  assumes "loop_inv s st"
  shows "delay_samples_loop h s frame chan i st \<noteq> Inl DelayBufferOverrun"
  using assms
proof (induction h s frame chan i st rule: delay_samples_loop.induct)
  case (1 h s frame chan i st)
  show ?case
  proof (cases "int i < nb_samples frame")
    case True
    show ?thesis
    proof (cases "delay_sample h s frame chan i st")
      case (Inl e)
      then show ?thesis
        using delay_sample_inv(1)[OF "1.prems", of h frame chan i] True
        by (subst delay_samples_loop.simps) auto
    next
      case (Inr st1)
      then show ?thesis
        using "1.IH"[OF True Inr] delay_sample_inv(2)[OF "1.prems" Inr] True
        by (subst delay_samples_loop.simps) auto
    qed
  next
    case False
    then show ?thesis by (subst delay_samples_loop.simps) simp
  qed
qed

lemma MOD_mod: "0 \<le> d \<Longrightarrow> d < n \<Longrightarrow> MOD (d + 1) n = (d + 1) mod n"
proof (cases "d + 1 = n")
  case True
  then show ?thesis by (simp add: MOD_def)
next
  case False
  assume "0 \<le> d" "d < n"
  with False show ?thesis by (simp add: MOD_def)
qed

lemma delay_sample_dindex:
  assumes "delay_sample h s frame chan i st = Inr st'" and "loop_inv s st"
  shows "dl_dindex st' = (dl_dindex st + 1) mod delay_samples s"
  using assms
  by (auto simp: delay_sample_def loop_inv_def Let_def MOD_mod
      split: if_splits sum.splits dest!: delay_emit_keeps)

lemma delay_samples_loop_dindex:
  assumes "delay_samples_loop h s frame chan i st = Inr st'"
    and "loop_inv s st" and "int i \<le> nb_samples frame"
  shows "dl_dindex st' = (dl_dindex st + (nb_samples frame - int i)) mod delay_samples s"
  using assms
proof (induction h s frame chan i st rule: delay_samples_loop.induct)
  case (1 h s frame chan i st)
  show ?case
  proof (cases "int i < nb_samples frame")
    case True
    with "1.prems"(1) obtain st1 where
      step: "delay_sample h s frame chan i st = Inr st1" and
      rest: "delay_samples_loop h s frame chan (i + 1) st1 = Inr st'"
      by (subst (asm) delay_samples_loop.simps) (auto split: sum.splits)
    have inv1: "loop_inv s st1"
      using delay_sample_inv(2)[OF "1.prems"(2) step] .
    have "dl_dindex st' = (dl_dindex st1 + (nb_samples frame - int (i + 1))) mod delay_samples s"
      using "1.IH"[OF True step rest inv1] True by simp
    also have "\<dots> = ((dl_dindex st + 1) mod delay_samples s + (nb_samples frame - int (i + 1)))
                  mod delay_samples s"
      using delay_sample_dindex[OF step "1.prems"(2)] by simp
    also have "\<dots> = ((dl_dindex st + 1) + (nb_samples frame - int (i + 1))) mod delay_samples s"
      by (rule mod_add_left_eq)
    also have "(dl_dindex st + 1) + (nb_samples frame - int (i + 1))
                 = dl_dindex st + (nb_samples frame - int i)"
      by simp
    finally show ?thesis .
  next
    case False
    with "1.prems" have "st' = st" "nb_samples frame = int i"
      by (subst (asm) delay_samples_loop.simps; simp)+
    with "1.prems"(2) show ?thesis by (simp add: loop_inv_def)
  qed
qed

lemma buffers_ok_update:
  "buffers_ok nch n f \<Longrightarrow> length d = nat n \<Longrightarrow>
     buffers_ok nch n (f\<lparr>extended_data := (extended_data f)[chan := d]\<rparr>)"
  by (auto simp: buffers_ok_def dest!: set_update_subset_insert[THEN subsetD])

lemma delay_channels_step:
  assumes run: "delay_samples_loop h s frame chan 0
                  \<lparr>dl_cp = dc_channels dc ! chan,
                   dl_dbuf = extended_data (dc_frame dc) ! chan,
                   dl_out = dc_out dc, dl_oindex = 0,
                   dl_count = delay_count s, dl_dindex = delay_index s\<rparr> = Inr r"
    and inv: "delay_inv s" "chan_inv s frame chan dc"
    and nb: "0 \<le> nb_samples frame" and chan: "chan < length (extended_data (dc_frame dc))"
  shows "chan_inv s frame (chan + 1)
           \<lparr>dc_channels = (dc_channels dc)[chan := dl_cp r],
            dc_frame = (dc_frame dc)
              \<lparr>extended_data := (extended_data (dc_frame dc))[chan := dl_dbuf r]\<rparr>,
            dc_out = dl_out r, dc_count = dl_count r, dc_dindex = dl_dindex r\<rparr>"
proof -
  let ?st = "\<lparr>dl_cp = dc_channels dc ! chan,
                   dl_dbuf = extended_data (dc_frame dc) ! chan,
                   dl_out = dc_out dc, dl_oindex = 0,
                   dl_count = delay_count s, dl_dindex = delay_index s\<rparr>"
  have len: "length (extended_data (dc_frame dc) ! chan) = nat (delay_samples s)"
    using inv(2) chan by (auto simp: chan_inv_def buffers_ok_def)
  have li: "loop_inv s ?st"
    using inv(1) len by (simp add: loop_inv_def delay_inv_def)
  have oi: "out_inv s frame (delay_count s) 0 ?st"
    using inv(2) by (auto simp: out_inv_def chan_inv_def split: option.splits)
  have post: "loop_inv s r" "out_inv s frame (delay_count s) (nat (nb_samples frame)) r"
    using delay_samples_loop_inv[OF run li oi] nb by auto
  have dx: "dl_dindex r = (delay_index s + nb_samples frame) mod delay_samples s"
    using delay_samples_loop_dindex[OF run li] nb by simp
  have bo: "buffers_ok (nb_channels s) (delay_samples s)
              ((dc_frame dc)\<lparr>extended_data := (extended_data (dc_frame dc))[chan := dl_dbuf r]\<rparr>)"
    using inv(2) post(1) by (intro buffers_ok_update) (auto simp: chan_inv_def loop_inv_def)
  show ?thesis
    using post dx bo nb
    by (auto simp: chan_inv_def loop_inv_def out_inv_def frame_count_def split: option.splits)
qed

lemma delay_channels_loop_inv:
  assumes "delay_channels_loop h s frame chan dc = Inr dc'"
    and "delay_inv s" and "chan_inv s frame chan dc" and "0 \<le> nb_samples frame"
  shows "chan_inv s frame (max chan (nat (nb_channels s))) dc'"
  using assms
proof (induction h s frame chan dc rule: delay_channels_loop.induct)
  case (1 h s frame chan dc)
  show ?case
  proof (cases "int chan < nb_channels s")
    case True
    let ?st = "\<lparr>dl_cp = dc_channels dc ! chan,
                   dl_dbuf = extended_data (dc_frame dc) ! chan,
                   dl_out = dc_out dc, dl_oindex = 0,
                   dl_count = delay_count s, dl_dindex = delay_index s\<rparr>"
    from True "1.prems"(1) have chan: "\<not> length (extended_data (dc_frame dc)) \<le> chan"
      by (subst (asm) delay_channels_loop.simps) (auto split: if_splits)
    with True "1.prems"(1) obtain r where
      run: "delay_samples_loop h s frame chan 0 ?st = Inr r" and
      rest: "delay_channels_loop h s frame (chan + 1)
               \<lparr>dc_channels = (dc_channels dc)[chan := dl_cp r],
                dc_frame = (dc_frame dc)
                  \<lparr>extended_data := (extended_data (dc_frame dc))[chan := dl_dbuf r]\<rparr>,
                dc_out = dl_out r, dc_count = dl_count r, dc_dindex = dl_dindex r\<rparr> = Inr dc'"
      by (subst (asm) delay_channels_loop.simps) (auto split: sum.splits)
    have "chan_inv s frame (chan + 1)
               \<lparr>dc_channels = (dc_channels dc)[chan := dl_cp r],
                dc_frame = (dc_frame dc)
                  \<lparr>extended_data := (extended_data (dc_frame dc))[chan := dl_dbuf r]\<rparr>,
                dc_out = dl_out r, dc_count = dl_count r, dc_dindex = dl_dindex r\<rparr>"
      using delay_channels_step[OF run "1.prems"(2,3,4)] chan by simp
    from "1.IH"[OF True chan run rest "1.prems"(2) this "1.prems"(4)] True
    show ?thesis by (simp add: max_def split: if_splits)
  next
    case False
    with "1.prems"(1) have "dc' = dc"
      by (subst (asm) delay_channels_loop.simps) simp
    moreover from False have "max chan (nat (nb_channels s)) = chan" by linarith
    ultimately show ?thesis using "1.prems"(3) by simp
  qed
qed

lemma drain_samples_loop_spec:
  assumes "drain_samples_loop s dbuf cp n i st = Inr st'"
    and "0 \<le> snd st" and "snd st < delay_samples s" and "i \<le> n"
  shows "length (fst st') = length (fst st) \<and>
         snd st' = (snd st + (int n - int i)) mod delay_samples s \<and>
         (\<forall>j < i. fst st' ! j = fst st ! j) \<and>
         (\<forall>j. i \<le> j \<and> j < n \<longrightarrow>
            (\<exists>g. get_volume s (volume cp) = Inr g \<and>
               fst st' ! j =
                 av_clipf (dbuf ! nat ((snd st + (int j - int i)) mod delay_samples s) * g) (- 1) 1))"
  using assms
proof (induction s dbuf cp n i st rule: drain_samples_loop.induct)
  case (1 s dbuf cp n i st)
  show ?case
  proof (cases "i < n")
    case True
    with "1.prems"(1) obtain g where
      ok: "0 \<le> snd st \<and> nat (snd st) < length dbuf" and
      g: "get_volume s (volume cp) = Inr g" and
      len: "\<not> length (fst st) \<le> i" and
      rest: "drain_samples_loop s dbuf cp n (i + 1)
               ((fst st)[i := av_clipf (dbuf ! nat (snd st) * g) (- 1) 1],
                MOD (snd st + 1) (delay_samples s)) = Inr st'"
      by (subst (asm) drain_samples_loop.simps) (auto split: sum.splits if_splits)
    let ?st1 = "((fst st)[i := av_clipf (dbuf ! nat (snd st) * g) (- 1) 1],
                MOD (snd st + 1) (delay_samples s))"
    have m: "MOD (snd st + 1) (delay_samples s) = (snd st + 1) mod delay_samples s"
      using MOD_mod "1.prems"(2,3) by simp
    have r: "0 \<le> snd ?st1" "snd ?st1 < delay_samples s"
      using MOD_range[OF "1.prems"(2,3)] by simp_all
    have ok': "\<not> \<not> (0 \<le> snd st \<and> nat (snd st) < length dbuf)" using ok by simp
    have IH: "length (fst st') = length (fst ?st1) \<and>
         snd st' = (snd ?st1 + (int n - int (i + 1))) mod delay_samples s \<and>
         (\<forall>j < i + 1. fst st' ! j = fst ?st1 ! j) \<and>
         (\<forall>j. i + 1 \<le> j \<and> j < n \<longrightarrow>
            (\<exists>g. get_volume s (volume cp) = Inr g \<and>
               fst st' ! j =
                 av_clipf (dbuf ! nat ((snd ?st1 + (int j - int (i + 1))) mod delay_samples s) * g) (- 1) 1))"
      using "1.IH"[OF True ok' g len rest r] True by simp
    have shift: "\<And>k. ((snd st + 1) mod delay_samples s + (k - int (i + 1))) mod delay_samples s
                   = (snd st + (k - int i)) mod delay_samples s"
    proof -
      fix k
      have "((snd st + 1) mod delay_samples s + (k - int (i + 1))) mod delay_samples s
              = ((snd st + 1) + (k - int (i + 1))) mod delay_samples s"
        by (rule mod_add_left_eq)
      also have "(snd st + 1) + (k - int (i + 1)) = snd st + (k - int i)" by simp
      finally show "((snd st + 1) mod delay_samples s + (k - int (i + 1))) mod delay_samples s
                   = (snd st + (k - int i)) mod delay_samples s" .
    qed
    have c1: "length (fst st') = length (fst st)" using IH by simp
    have c2: "snd st' = (snd st + (int n - int i)) mod delay_samples s"
      using IH shift[of "int n"] m by simp
    have c3: "\<forall>j < i. fst st' ! j = fst st ! j" using IH by simp
    have c4: "\<exists>g. get_volume s (volume cp) = Inr g \<and>
               fst st' ! j =
                 av_clipf (dbuf ! nat ((snd st + (int j - int i)) mod delay_samples s) * g) (- 1) 1"
      if "i \<le> j \<and> j < n" for j
    proof (cases "j = i")
      case True
      have "fst st' ! i = fst ?st1 ! i" using IH by simp
      also have "\<dots> = av_clipf (dbuf ! nat (snd st) * g) (- 1) 1" using len by simp
      finally show ?thesis using g True "1.prems"(2,3) by simp
    next
      case False
      with that have "i + 1 \<le> j \<and> j < n" by simp
      with IH have "\<exists>g. get_volume s (volume cp) = Inr g \<and>
               fst st' ! j =
                 av_clipf (dbuf ! nat ((snd ?st1 + (int j - int (i + 1))) mod delay_samples s) * g) (- 1) 1"
        by blast
      moreover have "(snd ?st1 + (int j - int (i + 1))) mod delay_samples s
                       = (snd st + (int j - int i)) mod delay_samples s"
        using shift[of "int j"] m by simp
      ultimately show ?thesis by (simp only:)
    qed
    show ?thesis using c1 c2 c3 c4 by blast
  next
    case False
    with "1.prems" have "st' = st" "n = i"
      by (subst (asm) drain_samples_loop.simps; simp)+
    with "1.prems"(2,3) show ?thesis by auto
  qed
qed

lemma drain_channels_loop_spec:
  assumes "drain_channels_loop s df chan st = Inr st'"
    and "0 \<le> delay_index s" and "delay_index s < delay_samples s"
    and "0 \<le> nb_samples (fst st)"
  shows "nb_samples (fst st') = nb_samples (fst st) \<and>
         length (extended_data (fst st')) = length (extended_data (fst st)) \<and>
         (int chan < nb_channels s \<longrightarrow>
            snd st' = Some ((delay_index s + nb_samples (fst st)) mod delay_samples s)) \<and>
         (\<not> int chan < nb_channels s \<longrightarrow> st' = st) \<and>
         (\<forall>c < chan. extended_data (fst st') ! c = extended_data (fst st) ! c) \<and>
         (\<forall>c. chan \<le> c \<and> int c < nb_channels s \<longrightarrow>
            length (extended_data (fst st') ! c) = length (extended_data (fst st) ! c) \<and>
            (\<forall>j < nat (nb_samples (fst st)).
               (\<exists>g. get_volume s (volume (channels s ! c)) = Inr g \<and>
                  extended_data (fst st') ! c ! j =
                    av_clipf (extended_data df ! c !
                                nat ((delay_index s + int j) mod delay_samples s) * g) (- 1) 1)))"
  using assms
proof (induction s df chan st rule: drain_channels_loop.induct)
  case (1 s df chan st)
  show ?case
  proof (cases "int chan < nb_channels s")
    case True
    let ?n = "nat (nb_samples (fst st))"
    from True "1.prems"(1) obtain r where
      b1: "\<not> length (extended_data df) \<le> chan" and
      b2: "\<not> length (extended_data (fst st)) \<le> chan" and
      run: "drain_samples_loop s (extended_data df ! chan) (channels s ! chan) ?n 0
              (extended_data (fst st) ! chan, delay_index s) = Inr r" and
      rest: "drain_channels_loop s df (chan + 1)
               ((fst st)\<lparr>extended_data := (extended_data (fst st))[chan := fst r]\<rparr>,
                Some (snd r)) = Inr st'"
      by (subst (asm) drain_channels_loop.simps) (auto split: sum.splits if_splits)
    let ?st1 = "((fst st)\<lparr>extended_data := (extended_data (fst st))[chan := fst r]\<rparr>, Some (snd r))"
    have sp: "length (fst r) = length (extended_data (fst st) ! chan)"
        "snd r = (delay_index s + int ?n) mod delay_samples s"
        "\<forall>j. j < ?n \<longrightarrow>
            (\<exists>g. get_volume s (volume (channels s ! chan)) = Inr g \<and>
               fst r ! j =
                 av_clipf (extended_data df ! chan ! nat ((delay_index s + int j) mod delay_samples s) * g) (- 1) 1)"
      using drain_samples_loop_spec[OF run] "1.prems"(2,3) by simp_all
    have nb1: "0 \<le> nb_samples (fst ?st1)" using "1.prems"(4) by simp
    note IH = "1.IH"[OF True b1 b2 run rest "1.prems"(2,3) nb1]
    have d1: "nb_samples (fst st') = nb_samples (fst st)" using IH by simp
    have d2: "length (extended_data (fst st')) = length (extended_data (fst st))" using IH by simp
    have d3: "snd st' = Some ((delay_index s + nb_samples (fst st)) mod delay_samples s)"
    proof (cases "int (chan + 1) < nb_channels s")
      case True
      with IH show ?thesis by simp
    next
      case False
      with IH have "st' = ?st1" by blast
      then show ?thesis using sp(2) "1.prems"(4) by simp
    qed
    have d5: "\<forall>c < chan. extended_data (fst st') ! c = extended_data (fst st) ! c"
      using IH by simp
    have at_chan: "extended_data (fst st') ! chan = fst r"
      using IH b2 by simp
    have d6: "length (extended_data (fst st') ! c) = length (extended_data (fst st) ! c) \<and>
            (\<forall>j < nat (nb_samples (fst st)).
               (\<exists>g. get_volume s (volume (channels s ! c)) = Inr g \<and>
                  extended_data (fst st') ! c ! j =
                    av_clipf (extended_data df ! c !
                                nat ((delay_index s + int j) mod delay_samples s) * g) (- 1) 1))"
      if "chan \<le> c \<and> int c < nb_channels s" for c
    proof (cases "c = chan")
      case True
      then show ?thesis using at_chan sp(1,3) by simp
    next
      case False
      with that have "chan + 1 \<le> c \<and> int c < nb_channels s" by simp
      with IH have "length (extended_data (fst st') ! c) = length (extended_data (fst ?st1) ! c) \<and>
            (\<forall>j < nat (nb_samples (fst ?st1)).
               (\<exists>g. get_volume s (volume (channels s ! c)) = Inr g \<and>
                  extended_data (fst st') ! c ! j =
                    av_clipf (extended_data df ! c !
                                nat ((delay_index s + int j) mod delay_samples s) * g) (- 1) 1))"
        by blast
      then show ?thesis using False by simp
    qed
    show ?thesis using True d1 d2 d3 d5 d6 by blast
  next
    case False
    with "1.prems"(1) have "st' = st"
      by (subst (asm) drain_channels_loop.simps) simp
    with False show ?thesis by auto
  qed
qed

lemma chan_inv_initial:
  "delay_inv s \<Longrightarrow> buffers_ok (nb_channels s) (delay_samples s) df \<Longrightarrow>
     chan_inv s frame 0
       \<lparr>dc_channels = channels s, dc_frame = df, dc_out = None, dc_count = 0, dc_dindex = 0\<rparr>"
  by (simp add: chan_inv_def delay_inv_def)

lemma delay_channels_loop_no_overrun:
  assumes "delay_inv s" and "chan_inv s frame chan dc" and "0 \<le> nb_samples frame"
  shows "delay_channels_loop h s frame chan dc \<noteq> Inl DelayBufferOverrun"
  using assms
proof (induction h s frame chan dc rule: delay_channels_loop.induct)
  case (1 h s frame chan dc)
  show ?case
  proof (cases "int chan < nb_channels s")
    case True
    let ?st = "\<lparr>dl_cp = dc_channels dc ! chan,
                   dl_dbuf = extended_data (dc_frame dc) ! chan,
                   dl_out = dc_out dc, dl_oindex = 0,
                   dl_count = delay_count s, dl_dindex = delay_index s\<rparr>"
    have chan: "\<not> length (extended_data (dc_frame dc)) \<le> chan"
      using True "1.prems"(2) by (auto simp: chan_inv_def buffers_ok_def)
    have len: "length (extended_data (dc_frame dc) ! chan) = nat (delay_samples s)"
      using "1.prems"(2) chan by (auto simp: chan_inv_def buffers_ok_def)
    have li: "loop_inv s ?st"
      using "1.prems"(1) len by (simp add: loop_inv_def delay_inv_def)
    show ?thesis
    proof (cases "delay_samples_loop h s frame chan 0 ?st")
      case (Inl e)
      then show ?thesis
        using delay_samples_loop_no_overrun[OF li, of h frame chan 0] True chan
        by (subst delay_channels_loop.simps) auto
    next
      case (Inr r)
      have "chan_inv s frame (chan + 1)
               \<lparr>dc_channels = (dc_channels dc)[chan := dl_cp r],
                dc_frame = (dc_frame dc)
                  \<lparr>extended_data := (extended_data (dc_frame dc))[chan := dl_dbuf r]\<rparr>,
                dc_out = dl_out r, dc_count = dl_count r, dc_dindex = dl_dindex r\<rparr>"
        using delay_channels_step[OF Inr "1.prems"(1,2,3)] chan by simp
      from "1.IH"[OF True chan Inr "1.prems"(1) this "1.prems"(3)] Inr True chan
      show ?thesis by (subst delay_channels_loop.simps) auto
    qed
  next
    case False
    then show ?thesis by (subst delay_channels_loop.simps) simp
  qed
qed

lemma compand_delay_post:
  assumes run: "compand_delay h s frame = Inr (s', out)"
    and inv: "delay_inv s" "delay_buffers_ok s" and nb: "0 \<le> nb_samples frame"
  shows "delay_inv s' \<and> delay_buffers_ok s' \<and>
         delay_samples s' = delay_samples s \<and> nb_channels s' = nb_channels s \<and>
         compand s' = compand s \<and> segments s' = segments s \<and>
         in_min_lin s' = in_min_lin s \<and> out_min_lin s' = out_min_lin s \<and>
         (0 < nb_channels s \<longrightarrow>
            frame_count out + delay_count s' = delay_count s + nb_samples frame \<and>
            delay_index s' = (delay_index s + nb_samples frame) mod delay_samples s)"
proof -
  from inv(2) obtain df where df: "delay_frame s = Some df"
      and bo: "buffers_ok (nb_channels s) (delay_samples s) df"
    by (auto simp: delay_buffers_ok_def split: option.splits)
  let ?dc = "\<lparr>dc_channels = channels s, dc_frame = df, dc_out = None, dc_count = 0, dc_dindex = 0\<rparr>"
  from run df obtain r where
    loop: "delay_channels_loop h s frame 0 ?dc = Inr r" and
    s': "s' = s\<lparr>channels := dc_channels r, delay_frame := Some (dc_frame r),
                 delay_count := dc_count r, delay_index := dc_dindex r\<rparr>" and
    out: "out = dc_out r"
    by (auto simp: compand_delay_def split: sum.splits)
  have "chan_inv s frame (max 0 (nat (nb_channels s))) r"
    using delay_channels_loop_inv[OF loop inv(1) chan_inv_initial[OF inv(1) bo] nb] .
  then show ?thesis
    using s' out by (auto simp: chan_inv_def delay_inv_def delay_buffers_ok_def)
qed

lemma compand_delay_no_overrun:
  assumes inv: "delay_inv s" "delay_buffers_ok s" and nb: "0 \<le> nb_samples frame"
  shows "compand_delay h s frame \<noteq> Inl DelayBufferOverrun"
proof -
  from inv(2) obtain df where df: "delay_frame s = Some df"
      and bo: "buffers_ok (nb_channels s) (delay_samples s) df"
    by (auto simp: delay_buffers_ok_def split: option.splits)
  show ?thesis
    using delay_channels_loop_no_overrun[OF inv(1) chan_inv_initial[OF inv(1) bo] nb, of h] df
    by (auto simp: compand_delay_def split: sum.splits)
qed

lemma drain_samples_loop_no_overrun:
  assumes "0 \<le> snd st" and "snd st < delay_samples s" and "length dbuf = nat (delay_samples s)"
  shows "drain_samples_loop s dbuf cp n i st \<noteq> Inl DelayBufferOverrun"
  using assms
proof (induction s dbuf cp n i st rule: drain_samples_loop.induct)
  case (1 s dbuf cp n i st)
  show ?case
  proof (cases "i < n")
    case True
    have ok: "0 \<le> snd st \<and> nat (snd st) < length dbuf"
      using "1.prems" by simp
    show ?thesis
    proof (cases "get_volume s (volume cp)")
      case (Inl e)
      then show ?thesis
        using True ok get_volume_Inl[OF Inl]
        by (subst drain_samples_loop.simps) auto
    next
      case (Inr g)
      show ?thesis
      proof (cases "length (fst st) \<le> i")
        case True
        then show ?thesis
          using \<open>i < n\<close> ok Inr by (subst drain_samples_loop.simps) auto
      next
        case False
        have ok': "\<not> \<not> (0 \<le> snd st \<and> nat (snd st) < length dbuf)" using ok by simp
        have "drain_samples_loop s dbuf cp n (i + 1)
               ((fst st)[i := av_clipf (dbuf ! nat (snd st) * g) (- 1) 1],
                MOD (snd st + 1) (delay_samples s)) \<noteq> Inl DelayBufferOverrun"
          using "1.IH"[OF True ok' Inr False] MOD_range[OF "1.prems"(1,2)] "1.prems"(3)
          by simp
        then show ?thesis
          using \<open>i < n\<close> ok Inr False by (subst drain_samples_loop.simps) auto
      qed
    qed
  next
    case False
    then show ?thesis by (subst drain_samples_loop.simps) simp
  qed
qed

lemma drain_channels_loop_no_overrun:
  assumes "0 \<le> delay_index s" and "delay_index s < delay_samples s"
    and "buffers_ok (nb_channels s) (delay_samples s) df"
  shows "drain_channels_loop s df chan st \<noteq> Inl DelayBufferOverrun"
  using assms
proof (induction s df chan st rule: drain_channels_loop.induct)
  case (1 s df chan st)
  show ?case
  proof (cases "int chan < nb_channels s")
    case True
    have b1: "\<not> length (extended_data df) \<le> chan"
      using True "1.prems"(3) by (auto simp: buffers_ok_def)
    have len: "length (extended_data df ! chan) = nat (delay_samples s)"
      using b1 "1.prems"(3) by (auto simp: buffers_ok_def)
    show ?thesis
    proof (cases "length (extended_data (fst st)) \<le> chan")
      case True
      then show ?thesis
        using \<open>int chan < nb_channels s\<close> b1 by (subst drain_channels_loop.simps) auto
    next
      case False
      show ?thesis
      proof (cases "drain_samples_loop s (extended_data df ! chan) (channels s ! chan)
                      (nat (nb_samples (fst st))) 0
                      (extended_data (fst st) ! chan, delay_index s)")
        case (Inl e)
        then show ?thesis
          using drain_samples_loop_no_overrun[of "(extended_data (fst st) ! chan, delay_index s)" s
                  "extended_data df ! chan" "channels s ! chan" "nat (nb_samples (fst st))" 0]
            "1.prems"(1,2) len True b1 False
          by (subst drain_channels_loop.simps) auto
      next
        case (Inr r)
        from "1.IH"[OF True b1 False Inr "1.prems"] Inr True b1 False
        show ?thesis by (subst drain_channels_loop.simps) auto
      qed
    qed
  next
    case False
    then show ?thesis by (subst drain_channels_loop.simps) simp
  qed
qed

lemma drain_channels_loop_nb_samples:
  "drain_channels_loop s df chan st = Inr st' \<Longrightarrow> nb_samples (fst st') = nb_samples (fst st)"
proof (induction s df chan st rule: drain_channels_loop.induct)
  case (1 s df chan st)
  show ?case
  proof (cases "int chan < nb_channels s")
    case True
    from True "1.prems"(1) obtain r where
      b1: "\<not> length (extended_data df) \<le> chan" and
      b2: "\<not> length (extended_data (fst st)) \<le> chan" and
      run: "drain_samples_loop s (extended_data df ! chan) (channels s ! chan)
              (nat (nb_samples (fst st))) 0
              (extended_data (fst st) ! chan, delay_index s) = Inr r" and
      rest: "drain_channels_loop s df (chan + 1)
               ((fst st)\<lparr>extended_data := (extended_data (fst st))[chan := fst r]\<rparr>,
                Some (snd r)) = Inr st'"
      by (subst (asm) drain_channels_loop.simps) (auto split: sum.splits if_splits)
    from "1.IH"[OF True b1 b2 run rest] show ?thesis by simp
  next
    case False
    with "1.prems"(1) have "st' = st"
      by (subst (asm) drain_channels_loop.simps) simp
    then show ?thesis by simp
  qed
qed

lemma ff_get_audio_buffer_simps [simp]:
  "nb_samples (ff_get_audio_buffer nch n) = n"
  "length (extended_data (ff_get_audio_buffer nch n)) = nat nch"
  by (simp_all add: ff_get_audio_buffer_def)

lemma compand_drain_count:
  assumes "compand_drain h s = Inr (s', f)"
  shows "nb_samples f = FFMIN 2048 (delay_count s) \<and> 0 \<le> nb_samples f \<and>
         delay_count s' = delay_count s - nb_samples f \<and>
         channels s' = channels s \<and> segments s' = segments s \<and>
         in_min_lin s' = in_min_lin s \<and> out_min_lin s' = out_min_lin s \<and>
         delay_frame s' = delay_frame s \<and> delay_samples s' = delay_samples s \<and>
         nb_channels s' = nb_channels s \<and> compand s' = compand s \<and> 0 < nb_channels s"
proof -
  from assms obtain df r d where
    ok: "\<not> FFMIN 2048 (delay_count s) < 0" and
    df: "delay_frame s = Some df" and
    loop: "drain_channels_loop s df 0
             (ff_get_audio_buffer (nb_channels s) (FFMIN 2048 (delay_count s)), None) = Inr (r, Some d)" and
    s': "s' = s\<lparr>delay_count := delay_count s - nb_samples r, delay_index := d\<rparr>" and
    f: "f = r"
    by (auto simp: compand_drain_def split: if_splits option.splits sum.splits prod.splits)
  have nb: "nb_samples r = FFMIN 2048 (delay_count s)"
    using drain_channels_loop_nb_samples[OF loop] by simp
  have "0 < nb_channels s"
  proof (rule ccontr)
    assume "\<not> 0 < nb_channels s"
    with loop show False by (subst (asm) drain_channels_loop.simps) simp
  qed
  with nb ok s' f show ?thesis by simp
qed

lemma compand_drain_post:
  assumes run: "compand_drain h s = Inr (s', f)"
    and inv: "delay_inv s" "delay_buffers_ok s"
  shows "delay_inv s' \<and> delay_buffers_ok s' \<and>
         delay_index s' = (delay_index s + nb_samples f) mod delay_samples s \<and>
         length (extended_data f) = nat (nb_channels s) \<and>
         (\<forall>c < nat (nb_channels s).
            length (extended_data f ! c) = nat (nb_samples f) \<and>
            (\<forall>j < nat (nb_samples f).
               \<exists>g df. get_volume s (volume (channels s ! c)) = Inr g \<and>
                  delay_frame s = Some df \<and>
                  extended_data f ! c ! j =
                    av_clipf (extended_data df ! c !
                                nat ((delay_index s + int j) mod delay_samples s) * g) (- 1) 1))"
proof -
  from run obtain df r d where
    ok: "\<not> FFMIN 2048 (delay_count s) < 0" and
    df: "delay_frame s = Some df" and
    loop: "drain_channels_loop s df 0
             (ff_get_audio_buffer (nb_channels s) (FFMIN 2048 (delay_count s)), None) = Inr (r, Some d)" and
    s': "s' = s\<lparr>delay_count := delay_count s - nb_samples r, delay_index := d\<rparr>" and
    f: "f = r"
    by (auto simp: compand_drain_def split: if_splits option.splits sum.splits prod.splits)
  let ?f0 = "ff_get_audio_buffer (nb_channels s) (FFMIN 2048 (delay_count s))"
  have i1: "0 \<le> delay_index s" and i2: "delay_index s < delay_samples s"
    using inv(1) by (simp_all add: delay_inv_def)
  have nb0: "0 \<le> nb_samples (fst (?f0, None :: int option))" using ok by simp
  note sp = drain_channels_loop_spec[OF loop i1 i2 nb0]
  have cnt: "nb_samples f = FFMIN 2048 (delay_count s)" "0 < nb_channels s"
    using compand_drain_count[OF run] by simp_all
  have d: "d = (delay_index s + nb_samples f) mod delay_samples s"
    using sp cnt by simp
  have "delay_inv s'"
    using s' f cnt inv(1) d ok by (auto simp: delay_inv_def FFMIN_def split: if_splits)
  moreover have "delay_buffers_ok s'"
    using s' inv(2) df by (simp add: delay_buffers_ok_def)
  moreover have "delay_index s' = (delay_index s + nb_samples f) mod delay_samples s"
    using s' d by simp
  moreover have "length (extended_data f) = nat (nb_channels s)"
    using sp f by simp
  moreover have "length (extended_data f ! c) = nat (nb_samples f) \<and>
            (\<forall>j < nat (nb_samples f).
               \<exists>g df. get_volume s (volume (channels s ! c)) = Inr g \<and>
                  delay_frame s = Some df \<and>
                  extended_data f ! c ! j =
                    av_clipf (extended_data df ! c !
                                nat ((delay_index s + int j) mod delay_samples s) * g) (- 1) 1)"
    if "c < nat (nb_channels s)" for c
  proof -
    from that have c: "0 \<le> c \<and> int c < nb_channels s" by simp
    from sp c have
      "length (extended_data (fst (r, Some d)) ! c) = length (extended_data (fst (?f0, None :: int option)) ! c) \<and>
            (\<forall>j < nat (nb_samples (fst (?f0, None :: int option))).
               (\<exists>g. get_volume s (volume (channels s ! c)) = Inr g \<and>
                  extended_data (fst (r, Some d)) ! c ! j =
                    av_clipf (extended_data df ! c !
                                nat ((delay_index s + int j) mod delay_samples s) * g) (- 1) 1))"
      by blast
    then show ?thesis
      using f cnt df that by (simp add: ff_get_audio_buffer_def)
  qed
  ultimately show ?thesis by blast
qed

lemma compand_drain_no_overrun:
  assumes inv: "delay_inv s" "delay_buffers_ok s"
  shows "compand_drain h s \<noteq> Inl DelayBufferOverrun"
proof -
  from inv(2) obtain df where df: "delay_frame s = Some df"
      and bo: "buffers_ok (nb_channels s) (delay_samples s) df"
    by (auto simp: delay_buffers_ok_def split: option.splits)
  have i1: "0 \<le> delay_index s" and i2: "delay_index s < delay_samples s"
    using inv(1) by (simp_all add: delay_inv_def)
  show ?thesis
    using drain_channels_loop_no_overrun[OF i1 i2 bo] df
    by (auto simp: compand_drain_def split: sum.splits option.splits prod.splits)
qed

lemma round_to_even_of_int [simp]: "round_to_even (of_int n) = n"
  by (simp add: round_to_even_def)

lemma to_float_pow2:
  assumes "- 126 \<le> k"
  shows "to_float (2 powr of_int k) = 2 powr of_int k"
proof -
  let ?v = "(2::real) powr of_int k"
  have pos: "0 < ?v" by simp
  have "\<lfloor>log 2 \<bar>?v\<bar>\<rfloor> = k" by simp
  then have ulp: "float_ulp ?v = 2 powr (of_int k - 23)"
    using assms by (simp add: float_ulp_def max_def)
  have "?v / float_ulp ?v = 2 powr 23"
    unfolding ulp by (simp add: powr_diff [symmetric])
  also have "\<dots> = of_int 8388608" by simp
  finally have q: "?v / float_ulp ?v = of_int 8388608" .
  have "to_float ?v = of_int (round_to_even (?v / float_ulp ?v)) * float_ulp ?v"
    using pos by (simp add: to_float_def)
  also have "\<dots> = of_int 8388608 * float_ulp ?v"
    by (simp only: q round_to_even_of_int)
  also have "\<dots> = 2 powr 23 * 2 powr (of_int k - 23)"
    unfolding ulp by simp
  also have "\<dots> = 2 powr (23 + (of_int k - 23))"
    by (rule powr_add [symmetric])
  also have "\<dots> = ?v" by simp
  finally show ?thesis .
qed

lemma to_float_zero [simp]: "to_float 0 = 0"
  by (simp add: to_float_def)

lemma to_float_dyadic [simp]:
  "to_float 1 = 1" "to_float (1 / 2) = 1 / 2" "to_float (1 / 4) = 1 / 4" "to_float (1 / 8) = 1 / 8"
  using to_float_pow2[of 0] to_float_pow2[of "- 1"] to_float_pow2[of "- 2"] to_float_pow2[of "- 3"]
  by (simp_all add: powr_minus_divide)





lemma float_ulp_below_one:
  assumes "1 / 2 \<le> \<bar>v\<bar>" and "\<bar>v\<bar> < 1"
  shows "float_ulp v = 1 / 2 ^ 24"
proof -
  have pos: "0 < \<bar>v\<bar>" using assms(1) by simp
  have "2 powr (- 1) \<le> \<bar>v\<bar>" using assms(1) by (simp add: powr_minus_divide)
  then have lo: "- 1 \<le> log 2 \<bar>v\<bar>" using pos by (simp add: le_log_iff)
  have hi: "log 2 \<bar>v\<bar> < 0" using pos assms(2) by simp
  have "\<lfloor>log 2 \<bar>v\<bar>\<rfloor> = - 1" using lo hi by (simp add: floor_eq_iff)
  then have "float_ulp v = 2 powr (- 24)" by (simp add: float_ulp_def)
  also have "\<dots> = 1 / 2 powr 24" by (rule powr_minus_divide)
  also have "\<dots> = 1 / 2 ^ 24" by simp
  finally show ?thesis .
qed

lemma to_float_minus_one: "to_float (- 1) = - 1"
proof -
  have ulp: "float_ulp (- 1) = 1 / 2 ^ 23"
  proof -
    have "float_ulp (- 1) = 2 powr (- 23)" by (simp add: float_ulp_def)
    also have "\<dots> = 1 / 2 powr 23" by (rule powr_minus_divide)
    also have "\<dots> = 1 / 2 ^ 23" by simp
    finally show ?thesis .
  qed
  have q: "(- 1 :: real) / float_ulp (- 1) = of_int (- 8388608)"
    unfolding ulp by simp
  have "to_float (- 1) = of_int (round_to_even (- 1 / float_ulp (- 1))) * float_ulp (- 1)"
    by (simp add: to_float_def)
  also have "\<dots> = of_int (- 8388608) * float_ulp (- 1)"
    by (simp only: q round_to_even_of_int)
  also have "\<dots> = - 1" unfolding ulp by simp
  finally show ?thesis .
qed

lemma to_float_small_minus_one: "to_float (1 / 2 ^ 26 - 1) = - 1"
proof -
  let ?v = "1 / 2 ^ 26 - 1 :: real"
  have ulp: "float_ulp ?v = 1 / 2 ^ 24"
    by (rule float_ulp_below_one) simp_all
  have q: "?v / float_ulp ?v = of_int (- 16777216) + 1 / 4"
    unfolding ulp by simp
  have f: "\<lfloor>?v / float_ulp ?v\<rfloor> = - 16777216"
    unfolding q by (simp add: floor_eq_iff)
  have r: "round_to_even (?v / float_ulp ?v) = - 16777216"
    unfolding round_to_even_def f Let_def unfolding q by simp
  have nz: "?v \<noteq> 0" by simp
  have "to_float ?v = of_int (round_to_even (?v / float_ulp ?v)) * float_ulp ?v"
    using nz unfolding to_float_def by (simp only: if_False)
  also have "\<dots> = of_int (- 16777216) * float_ulp ?v" by (simp only: r)
  also have "\<dots> = - 1" unfolding ulp by simp
  finally show ?thesis .
qed

lemma to_float_small: "to_float (1 / 2 ^ 26) = 1 / 2 ^ 26"
proof -
  have e: "(2::real) powr of_int (- 26) = 1 / 2 ^ 26"
  proof -
    have "(2::real) powr of_int (- 26) = 2 powr (- 26)" by simp
    also have "\<dots> = 1 / 2 powr 26" by (rule powr_minus_divide)
    also have "\<dots> = 1 / 2 ^ 26" by simp
    finally show ?thesis .
  qed
  have "to_float (2 powr of_int (- 26)) = 2 powr of_int (- 26)"
    by (rule to_float_pow2) simp
  then show ?thesis unfolding e .
qed

lemma update_volume_unit:
  assumes "attack cp = 1" and "decay cp = 1"
  shows "volume (update_volume cp inp) = to_float (volume cp + to_float (to_float (inp - volume cp)))"
  using assms by (simp add: update_volume_def Let_def)

text \<open>
  The scan of \<^verbatim>\<open>get_volume\<close> stops at the first knot from \<open>i + 1\<close> on that is not below
  the level; when there is none in the array, it runs off the end.
\<close>

lemma scan_segments_found:
  "i + 1 \<le> k \<Longrightarrow> k < length segs \<Longrightarrow> in_log \<le> seg_x (segs ! k) \<Longrightarrow>
     \<exists>j. scan_segments segs in_log i = Inr j \<and> i \<le> j \<and> j + 1 \<le> k \<and>
       in_log \<le> seg_x (segs ! (j + 1))"
proof (induction segs in_log i rule: scan_segments.induct)
  case (1 segs in_log i)
  show ?case
  proof (cases "in_log \<le> seg_x (segs ! (i + 1))")
    case True
    then show ?thesis using "1.prems" by (subst scan_segments.simps) simp
  next
    case False
    then have "i + 1 \<noteq> k" using "1.prems"(3) by auto
    then have k: "i + 1 + 1 \<le> k" using "1.prems"(1) by simp
    have l: "\<not> length segs \<le> i + 1" using "1.prems"(1,2) by simp
    from "1.IH"[OF l False k "1.prems"(2,3)] obtain j where
      "scan_segments segs in_log (i + 1) = Inr j" "i + 1 \<le> j" "j + 1 \<le> k"
      "in_log \<le> seg_x (segs ! (j + 1))"
      by blast
    then show ?thesis using l False by (subst scan_segments.simps) simp
  qed
qed

lemma scan_segments_overrun:
  "\<forall>k. i + 1 \<le> k \<and> k < length segs \<longrightarrow> seg_x (segs ! k) < in_log \<Longrightarrow>
     scan_segments segs in_log i = Inl SegmentsOverrun"
proof (induction segs in_log i rule: scan_segments.induct)
  case (1 segs in_log i)
  show ?case
  proof (cases "length segs \<le> i + 1")
    case True
    then show ?thesis by (subst scan_segments.simps) simp
  next
    case False
    then have n: "\<not> in_log \<le> seg_x (segs ! (i + 1))" using "1.prems" by (simp add: not_le)
    have "\<forall>k. i + 1 + 1 \<le> k \<and> k < length segs \<longrightarrow> seg_x (segs ! k) < in_log"
      using "1.prems" by simp
    from "1.IH"[OF False n this] show ?thesis
      using False n by (subst scan_segments.simps) simp
  qed
qed

lemma get_volume_overrun:
  assumes "in_min_lin s \<le> v" and "0 < v"
    and "\<forall>k. 2 \<le> k \<and> k < length (segments s) \<longrightarrow> seg_x (segments s ! k) < ln v"
  shows "get_volume s v = Inl SegmentsOverrun"
proof -
  have "scan_segments (segments s) (ln v) 1 = Inl SegmentsOverrun"
    using assms(3) by (intro scan_segments_overrun) simp
  then show ?thesis using assms(1,2) by (simp add: get_volume_def)
qed
section \<open>Properties of the configuration\<close>

lemma length_shift_loop [simp]: "length (shift_loop j num segs) = length segs"
proof (induction j num segs rule: shift_loop.induct)
  case (1 j num segs)
  then show ?case by (subst shift_loop.simps) simp
qed

lemma shift_loop_last:
  "j < num \<Longrightarrow> S_second (num - 1) < length segs \<Longrightarrow>
     shift_loop j num segs ! S_second (num - 1) = segs ! S_second num"
proof (induction j num segs rule: shift_loop.induct)
  case (1 j num segs)
  show ?case
  proof (cases "j + 1 < num")
    case True
    with "1.prems" "1.IH" show ?thesis
      by (subst shift_loop.simps) (simp add: S_second_def)
  next
    case False
    with "1.prems" have "num = j + 1" by simp
    with "1.prems" show ?thesis
      by (subst shift_loop.simps, subst shift_loop.simps) (simp add: S_second_def)
  qed
qed

lemma join_loop_inv:
  assumes "join_loop i m segs = (m', segs')"
    and "2 \<le> i" and "i \<le> m" and "S_second (m - 1) < length segs"
    and "seg_x (segs ! S_second (m - 1)) = 0"
  shows "length segs' = length segs \<and> 2 \<le> m' \<and> m' \<le> m \<and>
         seg_x (segs' ! S_second (m' - 1)) = 0"
  using assms
proof (induction i m segs rule: join_loop.induct)
  case (1 i num segs)
  show ?case
  proof (cases "i < num")
    case False
    with "1.prems" show ?thesis
      by (subst (asm) join_loop.simps) auto
  next
    case True
    define g1 where "g1 = (seg_y (segs ! S_second (i - 1)) - seg_y (segs ! S_second (i - 2))) *
                  (seg_x (segs ! S_second i) - seg_x (segs ! S_second (i - 1)))"
    define g2 where "g2 = (seg_y (segs ! S_second i) - seg_y (segs ! S_second (i - 1))) *
                  (seg_x (segs ! S_second (i - 1)) - seg_x (segs ! S_second (i - 2)))"
    show ?thesis
    proof (cases "\<bar>g1 - g2\<bar> \<noteq> 0")
      case ne: True
      with True "1.prems"(1) have rec: "join_loop (i + 1) num segs = (m', segs')"
        by (subst (asm) join_loop.simps) (simp add: g1_def g2_def Let_def)
      from "1.IH"(1)[OF True g1_def g2_def ne rec] True "1.prems" show ?thesis by simp
    next
      case eq: False
      with True "1.prems"(1) have
        rec: "join_loop i (num - 1) (shift_loop (i - 1) (num - 1) segs) = (m', segs')"
        by (subst (asm) join_loop.simps) (simp add: g1_def g2_def Let_def)
      have lt: "i - 1 < num - 1" using True "1.prems"(2) by simp
      have b: "S_second (num - 1 - 1) < length segs"
        using "1.prems"(4) by (simp add: S_second_def)
      have last: "shift_loop (i - 1) (num - 1) segs ! S_second (num - 1 - 1) = segs ! S_second (num - 1)"
        using shift_loop_last[OF lt b] .
      have le: "i \<le> num - 1" using True by simp
      have z: "seg_x (shift_loop (i - 1) (num - 1) segs ! S_second (num - 1 - 1)) = 0"
        using last "1.prems"(5) by simp
      have b': "S_second (num - 1 - 1) < length (shift_loop (i - 1) (num - 1) segs)"
        using b by simp
      from "1.IH"(2)[OF True g1_def g2_def eq rec "1.prems"(2) le b' z]
      show ?thesis by auto
    qed
  qed
qed

lemma M_LN10_scale_nonzero: "M_LN10 / 20 \<noteq> 0"
  by (simp add: M_LN10_def)

text \<open>
  The conversion loop started at \<open>i\<close> ends without a fault when a knot at an even
  distance above \<open>i\<close> has \<open>x = 0\<close>; it keeps the length and which knots have \<open>x = 0\<close>.
\<close>

lemma db_to_ln_loop_ok:
  "i + 2 * j < length segs \<Longrightarrow> seg_x (segs ! (i + 2 * j)) = 0 \<Longrightarrow>
     \<exists>segs'. db_to_ln_loop gain i segs = Inr segs' \<and> length segs' = length segs \<and>
       (\<forall>k. (seg_x (segs' ! k) = 0) = (seg_x (segs ! k) = 0))"
proof (induction j arbitrary: i segs)
  case 0
  let ?segs1 = "segs[i := (segs ! i)
                   \<lparr>seg_x := seg_x (segs ! i) * (M_LN10 / 20),
                    seg_y := (seg_y (segs ! i) + gain) * (M_LN10 / 20)\<rparr>]"
  show ?case
  proof (cases "i = 0 \<or> seg_x (segs ! (i - 2)) \<noteq> 0")
    case True
    have stop: "db_to_ln_loop gain (i + 2) ?segs1 = Inr ?segs1"
      using 0 by (subst db_to_ln_loop.simps) simp
    have "db_to_ln_loop gain i segs = Inr ?segs1"
      using True 0 stop by (subst db_to_ln_loop.simps) simp
    moreover have "\<forall>k. (seg_x (?segs1 ! k) = 0) = (seg_x (segs ! k) = 0)"
      using 0 by (simp add: nth_list_update)
    ultimately show ?thesis by simp
  next
    case False
    then show ?thesis by (subst db_to_ln_loop.simps) simp
  qed
next
  case (Suc j)
  let ?segs1 = "segs[i := (segs ! i)
                   \<lparr>seg_x := seg_x (segs ! i) * (M_LN10 / 20),
                    seg_y := (seg_y (segs ! i) + gain) * (M_LN10 / 20)\<rparr>]"
  show ?case
  proof (cases "i = 0 \<or> seg_x (segs ! (i - 2)) \<noteq> 0")
    case True
    have "i + 2 + 2 * j < length ?segs1" "seg_x (?segs1 ! (i + 2 + 2 * j)) = 0"
      using Suc.prems by simp_all
    from Suc.IH[OF this] obtain segs' where
      r: "db_to_ln_loop gain (i + 2) ?segs1 = Inr segs'" "length segs' = length ?segs1"
        "\<forall>k. (seg_x (segs' ! k) = 0) = (seg_x (?segs1 ! k) = 0)"
      by blast
    have "db_to_ln_loop gain i segs = Inr segs'"
      using True Suc.prems r(1) by (subst db_to_ln_loop.simps) simp
    moreover have "\<forall>k. (seg_x (?segs1 ! k) = 0) = (seg_x (segs ! k) = 0)"
      using Suc.prems M_LN10_scale_nonzero by (simp add: nth_list_update)
    ultimately show ?thesis using r(2,3) by simp
  next
    case False
    then show ?thesis by (subst db_to_ln_loop.simps) simp
  qed
qed

lemma knee_slopes_above: "i - 2 < k \<Longrightarrow> seg_x (knee_slopes i segs ! k) = seg_x (segs ! k)"
  by (simp add: knee_slopes_def Let_def nth_list_update)

lemma knee_entry_above: "i - 3 < k \<Longrightarrow> knee_entry radius i segs ! k = segs ! k"
  by (simp add: knee_entry_def Let_def)

lemma knee_fit_above: "i - 2 < k \<Longrightarrow> knee_fit i xy segs ! k = segs ! k"
  by (simp add: knee_fit_def Let_def)

lemma knee_body_above: "i - 2 < k \<Longrightarrow> seg_x (knee_body radius i segs ! k) = seg_x (segs ! k)"
  by (simp add: knee_body_def Let_def knee_fit_above knee_entry_above knee_slopes_above)

text \<open>
  The soft-knee loop started at \<open>i\<close> ends without a fault when a knot at an even
  distance above \<open>i - 2\<close> has \<open>x = 0\<close>.
\<close>

lemma knee_loop_ok:
  "2 \<le> i \<Longrightarrow> i - 2 + 2 * j < length segs \<Longrightarrow> seg_x (segs ! (i - 2 + 2 * j)) = 0 \<Longrightarrow>
     \<exists>i' segs'. knee_loop radius i segs = Inr (i', segs') \<and> length segs' = length segs \<and>
       i \<le> i' \<and> i' - 2 < length segs"
proof (induction j arbitrary: i segs)
  case 0
  then show ?case by (subst knee_loop.simps) simp
next
  case (Suc j)
  show ?case
  proof (cases "seg_x (segs ! (i - 2)) \<noteq> 0")
    case True
    have e: "i - 2 + 2 * Suc j = i + 2 * j" "i + 2 - 2 + 2 * j = i + 2 * j"
      using Suc.prems(1) by simp_all
    have p: "i + 2 * j < length segs" "seg_x (segs ! (i + 2 * j)) = 0"
      using Suc.prems(2,3) unfolding e by simp_all
    have lt: "i < length segs" using p(1) by simp
    have "i - 2 < i + 2 * j" using Suc.prems(1) by simp
    then have "seg_x (knee_body radius i segs ! (i + 2 * j)) = 0"
      using p(2) by (simp add: knee_body_above)
    then have "2 \<le> i + 2" "i + 2 - 2 + 2 * j < length (knee_body radius i segs)"
      "seg_x (knee_body radius i segs ! (i + 2 - 2 + 2 * j)) = 0"
      unfolding e using p(1) by simp_all
    from Suc.IH[OF this] obtain i' segs' where
      r: "knee_loop radius (i + 2) (knee_body radius i segs) = Inr (i', segs')"
        "length segs' = length (knee_body radius i segs)" "i + 2 \<le> i'"
        "i' - 2 < length (knee_body radius i segs)"
      by blast
    have "knee_loop radius i segs = Inr (i', segs')"
      using True lt r(1) by (subst knee_loop.simps) simp
    with r show ?thesis by simp
  next
    case False
    with Suc.prems show ?thesis by (subst knee_loop.simps) simp
  qed
qed

lemma fold_count_ge: "n \<le> fold (\<lambda>c n. if c = CHR ''|'' then n + 1 else n) str (n::int)"
proof (induction str arbitrary: n)
  case Nil
  then show ?case by simp
next
  case (Cons c str)
  have "n \<le> (if c = CHR ''|'' then n + 1 else n)" by simp
  also have "\<dots> \<le> fold (\<lambda>c n. if c = CHR ''|'' then n + 1 else n) str
                       (if c = CHR ''|'' then n + 1 else n)"
    by (rule Cons.IH)
  finally show ?case by simp
qed

lemma count_items_pos: "1 \<le> count_items str"
  unfolding count_items_def by (rule fold_count_ge)

lemma points_loop_frame:
  assumes "points_loop h nb i st = Inr st'" and "int i \<le> nb"
  shows "snd (snd st') = snd (snd st) + (nat nb - i) \<and>
         length (fst (snd st')) = length (fst (snd st)) \<and>
         (\<forall>k. 2 * nat nb < k \<longrightarrow> fst (snd st') ! k = fst (snd st) ! k)"
  using assms
proof (induction h nb i st rule: points_loop.induct)
  case (1 h nb i st)
  show ?case
  proof (cases "int i < nb")
    case False
    with "1.prems" have "st' = st" "nat nb - i = 0"
      by (subst (asm) points_loop.simps; simp)+
    then show ?thesis by simp
  next
    case True
    from True "1.prems"(1) obtain tstr rest px py where
      tok: "strtok_r (fst st) = Some (tstr, rest)" and
      sc: "sscanf_ff h tstr = Some (px, py)"
      by (subst (asm) points_loop.simps) (auto split: option.splits)
    define segs1 where "segs1 = (fst (snd st))
                         [S_first i := (fst (snd st) ! S_first i)\<lparr>seg_x := px, seg_y := py\<rparr>]"
    from True "1.prems"(1) tok sc have
      ord: "\<not> (i \<noteq> 0 \<and> seg_x (segs1 ! S_first (i - 1)) > seg_x (segs1 ! S_first i))" and
      rec: "points_loop h nb (i + 1)
              (rest,
               segs1[S_first i := (segs1 ! S_first i)
                 \<lparr>seg_y := seg_y (segs1 ! S_first i) - seg_x (segs1 ! S_first i)\<rparr>],
               snd (snd st) + 1) = Inr st'"
      by (subst (asm) points_loop.simps; simp add: segs1_def Let_def split: if_splits)+
    have le: "int (i + 1) \<le> nb" using True by simp
    note IH = "1.IH"[OF True tok refl sc refl segs1_def ord rec le]
    have "S_first i \<le> 2 * nat nb" using True by (simp add: S_first_def)
    with IH True show ?thesis by (auto simp: segs1_def)
  qed
qed

lemma build_curve_ok:
  assumes n: "1 \<le> n" and len: "2 * (n + 1) < length segs0"
    and zero: "seg_x (segs0 ! (2 * (n + 1))) = 0"
  shows "\<exists>segs. build_curve curve gain radius n segs0 = Inr segs \<and> length segs = length segs0"
proof -
  define num where "num = (if n = 0 \<or> seg_x (segs0 ! S_first (n - 1)) \<noteq> 0 then n + 1 else n)"
  define segs1 where "segs1 = segs0[S_second 0 := (segs0 ! S_second 0)
                    \<lparr>seg_x := seg_x (segs0 ! S_second 1) - 2 * curve,
                     seg_y := seg_y (segs0 ! S_second 1)\<rparr>]"
  have num1: "1 \<le> num" "num \<le> n + 1" using n by (simp_all add: num_def)
  have last0: "seg_x (segs0 ! (2 * num)) = 0"
  proof (cases "seg_x (segs0 ! S_first (n - 1)) \<noteq> 0")
    case True
    then show ?thesis using zero by (simp add: num_def)
  next
    case False
    moreover have "S_first (n - 1) = 2 * n" using n by (simp add: S_first_def)
    ultimately show ?thesis using n by (simp add: num_def)
  qed
  have last1: "seg_x (segs1 ! S_second (num + 1 - 1)) = 0"
    using last0 num1 by (simp add: segs1_def S_second_def)
  have b1: "S_second (num + 1 - 1) < length segs1"
    using len num1 by (simp add: segs1_def S_second_def)
  obtain m' joined where j: "join_loop 2 (num + 1) segs1 = (m', joined)"
    by (cases "join_loop 2 (num + 1) segs1")
  have "2 \<le> (2::nat)" "2 \<le> num + 1" using num1 by simp_all
  from join_loop_inv[OF j this b1 last1] have
    jl: "length joined = length segs1" and m': "2 \<le> m'" "m' \<le> num + 1" and
    jz: "seg_x (joined ! S_second (m' - 1)) = 0"
    by simp_all
  have idx: "S_second (m' - 1) = 0 + 2 * (m' - 1)" "S_second (m' - 1) = 4 - 2 + 2 * (m' - 2)"
    using m' by (simp_all add: S_second_def)
  have jb: "S_second (m' - 1) < length joined"
    using b1 m' jl by (simp add: S_second_def)
  from db_to_ln_loop_ok[of 0 "m' - 1" joined gain] jb jz idx(1) obtain segs2 where
    d: "db_to_ln_loop gain 0 joined = Inr segs2" "length segs2 = length joined"
       "\<forall>k. (seg_x (segs2 ! k) = 0) = (seg_x (joined ! k) = 0)"
    by auto
  have kz: "seg_x (segs2 ! (4 - 2 + 2 * (m' - 2))) = 0" "4 - 2 + 2 * (m' - 2) < length segs2"
    using d jz jb idx(2) by simp_all
  from knee_loop_ok[of 4 "m' - 2" segs2 radius] kz obtain i' segs3 where
    k: "knee_loop radius 4 segs2 = Inr (i', segs3)" "length segs3 = length segs2"
    by auto
  have "build_curve curve gain radius n segs0 =
          Inr (segs3[i' - 3 := (segs3 ! (i' - 3))\<lparr>seg_x := 0, seg_y := seg_y (segs3 ! (i' - 2))\<rparr>])"
    unfolding build_curve_def Let_def num_def[symmetric] segs1_def[symmetric]
    by (simp only: j snd_conv d(1) k(1) sum.case prod.case)
  moreover have "length segs3 = length segs0"
    using k(2) d(2) jl by (simp add: segs1_def)
  ultimately show ?thesis by simp
qed

lemma config_curve_ok:
  assumes "points_loop h (count_items (points s)) 0
             (points s,
              replicate (nat ((count_items (points s) + 4) * 2))
                \<lparr>seg_x = 0, seg_y = 0, seg_a = 0, seg_b = 0\<rparr>, 0) = Inr st_p"
  shows "\<exists>segs. config_curve h s = Inr segs \<and>
           length segs = nat ((count_items (points s) + 4) * 2)"
proof -
  let ?nb = "count_items (points s)"
  have pos: "1 \<le> ?nb" by (rule count_items_pos)
  have "int 0 \<le> ?nb" using pos by simp
  from points_loop_frame[OF assms this] have
    cnt: "snd (snd st_p) = nat ?nb" and
    ln: "length (fst (snd st_p)) = nat ((?nb + 4) * 2)" and
    fr: "\<forall>k. 2 * nat ?nb < k \<longrightarrow> fst (snd st_p) ! k =
            replicate (nat ((?nb + 4) * 2)) \<lparr>seg_x = 0, seg_y = 0, seg_a = 0, seg_b = 0\<rparr> ! k"
    by simp_all
  have n1: "1 \<le> nat ?nb" using pos by simp
  have eq: "nat ((?nb + 4) * 2) = 2 * nat ?nb + 8" using pos by (simp add: nat_add_distrib nat_mult_distrib)
  have l2: "2 * (nat ?nb + 1) < length (fst (snd st_p))"
    using ln eq by simp
  have z: "seg_x (fst (snd st_p) ! (2 * (nat ?nb + 1))) = 0"
    using fr eq by simp
  from build_curve_ok[OF n1 l2 z, of "curve_dB s" "gain_dB s" "curve_dB s * M_LN10 / 20"]
  show ?thesis
    using assms cnt ln by (simp add: config_curve_def Let_def)
qed

lemma points_ok_from_Some:
  "points_ok_from h (Some q) toks \<longleftrightarrow>
     (\<forall>t \<in> set toks. sscanf_ff h t \<noteq> None) \<and> sorted (q # map (point_x h) toks)"
proof (induction toks arbitrary: q)
  case Nil
  then show ?case by simp
next
  case (Cons t ts)
  show ?case
  proof (cases "sscanf_ff h t")
    case None
    then show ?thesis by simp
  next
    case (Some p)
    obtain px py where p: "p = (px, py)" by (cases p)
    have x: "point_x h t = px" using Some p by (simp add: point_x_def)
    show ?thesis
      using Some p x Cons.IH[of px] by (auto simp: not_less intro: order_trans)
  qed
qed

lemma points_ok_from_None:
  "points_ok_from h None toks \<longleftrightarrow> points_acceptable h toks"
proof (cases toks)
  case Nil
  then show ?thesis by (simp add: points_acceptable_def)
next
  case (Cons t ts)
  show ?thesis
  proof (cases "sscanf_ff h t")
    case None
    then show ?thesis using Cons by (simp add: points_acceptable_def)
  next
    case (Some p)
    obtain px py where p: "p = (px, py)" by (cases p)
    have x: "point_x h t = px" using Some p by (simp add: point_x_def)
    show ?thesis
      using Cons Some p x points_ok_from_Some[of h px ts]
      by (simp add: points_acceptable_def)
  qed
qed

lemma points_loop_result:
  assumes "tokens (nat nb - i) (fst st) = Some toks" and "2 * nat nb < length (fst (snd st))"
  shows "(points_ok_from h (if i = 0 then None else Some (seg_x (fst (snd st) ! S_first (i - 1)))) toks
            \<longrightarrow> (\<exists>st'. points_loop h nb i st = Inr st')) \<and>
         (\<not> points_ok_from h (if i = 0 then None else Some (seg_x (fst (snd st) ! S_first (i - 1)))) toks
            \<longrightarrow> points_loop h nb i st = Inl EINVAL)"
  using assms
proof (induction toks arbitrary: i st)
  case Nil
  have "nat nb - i = 0"
  proof (cases "nat nb - i")
    case (Suc k)
    with Nil.prems(1) show ?thesis by (simp split: option.splits prod.splits)
  qed simp
  then have "\<not> int i < nb" by simp
  then have "points_loop h nb i st = Inr st" by (subst points_loop.simps) simp
  then show ?case by (simp only: points_ok_from.simps) blast
next
  case (Cons t ts)
  obtain k where k: "nat nb - i = Suc k"
    using Cons.prems(1) by (cases "nat nb - i") simp_all
  then have lt: "int i < nb" by simp
  from Cons.prems(1) k obtain rest where
    tok: "strtok_r (fst st) = Some (t, rest)" and ts: "tokens k rest = Some ts"
    by (auto split: option.splits)
  let ?prev = "if i = 0 then None else Some (seg_x (fst (snd st) ! S_first (i - 1)))"
  show ?case
  proof (cases "sscanf_ff h t")
    case None
    then show ?thesis using lt tok by (subst points_loop.simps) simp
  next
    case (Some p)
    obtain px py where p: "p = (px, py)" by (cases p)
    define segs1 where "segs1 = (fst (snd st))
                         [S_first i := (fst (snd st) ! S_first i)\<lparr>seg_x := px, seg_y := py\<rparr>]"
    define segs2 where "segs2 = segs1[S_first i := (segs1 ! S_first i)
                 \<lparr>seg_y := seg_y (segs1 ! S_first i) - seg_x (segs1 ! S_first i)\<rparr>]"
    have b: "S_first i < length (fst (snd st))"
      using lt Cons.prems(2) by (simp add: S_first_def)
    have x1: "seg_x (segs1 ! S_first i) = px" using b by (simp add: segs1_def)
    have x2: "seg_x (segs2 ! S_first i) = px" using b x1 by (simp add: segs2_def segs1_def)
    have xp: "i \<noteq> 0 \<Longrightarrow> seg_x (segs1 ! S_first (i - 1)) = seg_x (fst (snd st) ! S_first (i - 1))"
      by (simp add: segs1_def S_first_def)
    have unfold: "points_loop h nb i st =
        (if i \<noteq> 0 \<and> seg_x (segs1 ! S_first (i - 1)) > seg_x (segs1 ! S_first i) then Inl EINVAL
         else points_loop h nb (i + 1) (rest, segs2, snd (snd st) + 1))"
      using lt tok Some p
      by (subst points_loop.simps) (simp add: segs1_def segs2_def Let_def)
    have k': "nat nb - (i + 1) = k" using k by simp
    have IH: "(points_ok_from h (Some px) ts \<longrightarrow>
                 (\<exists>st'. points_loop h nb (i + 1) (rest, segs2, snd (snd st) + 1) = Inr st')) \<and>
              (\<not> points_ok_from h (Some px) ts \<longrightarrow>
                 points_loop h nb (i + 1) (rest, segs2, snd (snd st) + 1) = Inl EINVAL)"
      using Cons.IH[of "i + 1" "(rest, segs2, snd (snd st) + 1)"] ts k' Cons.prems(2) x2
      by (simp add: segs2_def segs1_def)
    show ?thesis
    proof (cases "i = 0")
      case True
      then show ?thesis using unfold IH Some p by simp
    next
      case False
      then show ?thesis using unfold IH Some p x1 xp by auto
    qed
  qed
qed

lemma parsed_count_simps [simp]:
  "parsed_count h [] = 0"
  "parsed_count h (t # ts) = (if sscanf_f h t = None then 0 else 1) + parsed_count h ts"
  by (simp_all add: parsed_count_def)

text \<open>
  The loop over the attack or decay times, by the list of its items: it fails with
  \<open>EINVAL\<close> when an item is read as a negative number, and otherwise counts the items
  that can be read and stores their values.  \<open>keep\<close> is a field the loop does not
  write.
\<close>

lemma times_loop_result:
  assumes gp: "\<And>v cp. get (put v cp) = v" and kp: "\<And>v cp. keep (put v cp) = (keep cp :: real)"
    and "tokens (nat nb - i) (fst st) = Some toks"
    and "nat nb \<le> length (fst (snd st))"
    and "\<forall>k. i \<le> k \<and> k < length (fst (snd st)) \<longrightarrow> get (fst (snd st) ! k) = 0"
  shows "((\<forall>t \<in> set toks. 0 \<le> time_of h t) \<longrightarrow>
           (\<exists>st'. times_loop h get put nb i st = Inr st' \<and>
              snd (snd st') = snd (snd st) + parsed_count h toks \<and>
              length (fst (snd st')) = length (fst (snd st)) \<and>
              (\<forall>k < i. fst (snd st') ! k = fst (snd st) ! k) \<and>
              (\<forall>k < length toks. get (fst (snd st') ! (i + k)) = time_of h (toks ! k)) \<and>
              (\<forall>k. i + length toks \<le> k \<longrightarrow> fst (snd st') ! k = fst (snd st) ! k) \<and>
              (\<forall>k < length (fst (snd st)). keep (fst (snd st') ! k) = keep (fst (snd st) ! k)))) \<and>
         (\<not> (\<forall>t \<in> set toks. 0 \<le> time_of h t) \<longrightarrow>
            times_loop h get put nb i st = Inl EINVAL)"
  using assms(3-)
proof (induction toks arbitrary: i st)
  case Nil
  have "nat nb - i = 0"
  proof (cases "nat nb - i")
    case (Suc k)
    with Nil.prems(1) show ?thesis by (simp split: option.splits prod.splits)
  qed simp
  then have "\<not> int i < nb" by simp
  then have "times_loop h get put nb i st = Inr st" by (subst times_loop.simps) simp
  then show ?case by simp
next
  case (Cons t ts)
  obtain k0 where k0: "nat nb - i = Suc k0"
    using Cons.prems(1) by (cases "nat nb - i") simp_all
  then have lt: "int i < nb" by simp
  have ilen: "i < length (fst (snd st))" using k0 Cons.prems(2) by simp
  from Cons.prems(1) k0 obtain rest where
    tok: "strtok_r (fst st) = Some (t, rest)" and ts: "tokens k0 rest = Some ts"
    by (auto split: option.splits)
  define chans where "chans = fst (snd st)"
  define chans1 where "chans1 = (case sscanf_f h t of
                             None \<Rightarrow> chans
                           | Some v \<Rightarrow> chans[i := put v (chans ! i)])"
  define cnt1 where "cnt1 = snd (snd st) + (if sscanf_f h t = None then 0 else 1)"
  have len1: "length chans1 = length chans"
    by (simp add: chans1_def split: option.splits)
  have at_i: "get (chans1 ! i) = time_of h t"
    using ilen Cons.prems(3) gp
    by (simp add: chans1_def chans_def time_of_def split: option.splits)
  have other: "\<And>k. k \<noteq> i \<Longrightarrow> chans1 ! k = chans ! k"
    by (simp add: chans1_def split: option.splits)
  have keep1: "keep (chans1 ! k) = keep (chans ! k)" if "k < length chans" for k
    using that by (cases "k = i") (auto simp: chans1_def kp split: option.splits)
  have unfold: "times_loop h get put nb i st =
        (if get (chans1 ! i) < 0 then Inl EINVAL
         else times_loop h get put nb (i + 1) (rest, chans1, cnt1))"
    unfolding chans1_def chans_def cnt1_def
    by (subst times_loop.simps) (simp add: lt tok Let_def)
  show ?case
  proof (cases "0 \<le> time_of h t")
    case False
    then show ?thesis using unfold at_i by simp
  next
    case True
    have k': "nat nb - (i + 1) = k0" using k0 by simp
    have p1: "tokens (nat nb - (i + 1)) (fst (rest, chans1, cnt1)) = Some ts"
      using ts k' by simp
    have p2: "nat nb \<le> length (fst (snd (rest, chans1, cnt1)))"
      using Cons.prems(2) len1 by (simp add: chans_def)
    have p3: "\<forall>k. i + 1 \<le> k \<and> k < length (fst (snd (rest, chans1, cnt1))) \<longrightarrow>
                get (fst (snd (rest, chans1, cnt1)) ! k) = 0"
      using Cons.prems(3) other len1 by (simp add: chans_def)
    note IH = Cons.IH[OF p1 p2 p3]
    show ?thesis
    proof (cases "\<forall>t \<in> set ts. 0 \<le> time_of h t")
      case False
      with IH have "times_loop h get put nb (i + 1) (rest, chans1, cnt1) = Inl EINVAL" by blast
      then show ?thesis using unfold at_i True False by simp
    next
      case all: True
      with IH obtain st' where
        r: "times_loop h get put nb (i + 1) (rest, chans1, cnt1) = Inr st'" and
        c: "snd (snd st') = cnt1 + parsed_count h ts" and
        l: "length (fst (snd st')) = length chans1" and
        b: "\<forall>k < i + 1. fst (snd st') ! k = chans1 ! k" and
        v: "\<forall>k < length ts. get (fst (snd st') ! (i + 1 + k)) = time_of h (ts ! k)" and
        z: "\<forall>k. i + 1 + length ts \<le> k \<longrightarrow> fst (snd st') ! k = chans1 ! k" and
        u: "\<forall>k < length chans1. keep (fst (snd st') ! k) = keep (chans1 ! k)"
        by auto
      have run: "times_loop h get put nb i st = Inr st'"
        using unfold at_i True r by simp
      have c1: "snd (snd st') = snd (snd st) + parsed_count h (t # ts)"
        using c by (simp add: cnt1_def)
      have c2: "length (fst (snd st')) = length (fst (snd st))"
        using l len1 by (simp add: chans_def)
      have c3: "\<forall>k < i. fst (snd st') ! k = fst (snd st) ! k"
        using b other by (simp add: chans_def)
      have c4: "get (fst (snd st') ! (i + k)) = time_of h ((t # ts) ! k)"
        if "k < length (t # ts)" for k
      proof (cases k)
        case 0
        then show ?thesis using b at_i by simp
      next
        case (Suc j)
        with that v show ?thesis by simp
      qed
      have c5: "\<forall>k. i + length (t # ts) \<le> k \<longrightarrow> fst (snd st') ! k = fst (snd st) ! k"
        using z other by (simp add: chans_def)
      have c6: "\<forall>k < length (fst (snd st)). keep (fst (snd st') ! k) = keep (fst (snd st) ! k)"
        using u keep1 len1 by (simp add: chans_def)
      show ?thesis
        using run c1 c2 c3 c4 c5 c6 True all by simp
    qed
  qed
qed

lemma tokens_length: "tokens n str = Some toks \<Longrightarrow> length toks = n"
  by (induction n arbitrary: str toks) (auto split: option.splits)

lemma times_loop_Inr_tokens:
  "times_loop h get put nb i st = Inr st' \<Longrightarrow> \<exists>toks. tokens (nat nb - i) (fst st) = Some toks"
proof (induction h get put nb i st rule: times_loop.induct)
  case (1 h get put nb i st)
  show ?case
  proof (cases "int i < nb")
    case False
    then have "nat nb - i = 0" by simp
    then show ?thesis by simp
  next
    case True
    from True "1.prems" obtain t rest where tok: "strtok_r (fst st) = Some (t, rest)"
      by (subst (asm) times_loop.simps) (auto split: option.splits)
    define chans where "chans = (case sscanf_f h t of
                             None \<Rightarrow> fst (snd st)
                           | Some v \<Rightarrow> (fst (snd st))[i := put v (fst (snd st) ! i)])"
    define cnt where "cnt = snd (snd st) + (if sscanf_f h t = None then 0 else 1)"
    from True "1.prems" tok have
      ok: "\<not> get (chans ! i) < 0" and
      rec: "times_loop h get put nb (i + 1) (rest, chans, cnt) = Inr st'"
      unfolding chans_def cnt_def
      by (subst (asm) times_loop.simps; simp add: Let_def split: if_splits)+
    from "1.IH"[OF True tok refl chans_def cnt_def ok rec] obtain ts where
      ts: "tokens (nat nb - (i + 1)) rest = Some ts" by auto
    have "nat nb - i = Suc (nat nb - (i + 1))" using True by simp
    then show ?thesis using tok ts by simp
  qed
qed


text \<open>What \<^verbatim>\<open>config_output\<close> does up to the control points, by the items.\<close>

lemma config_times_result:
  assumes nch: "0 < link_channels outlink"
    and ca: "count_items (attacks s) \<le> link_channels outlink"
    and cd: "count_items (decays s) \<le> link_channels outlink"
    and m: "malloc_ok h"
    and ta: "items (attacks s) = Some ta" and td: "items (decays s) = Some td"
  shows "((\<forall>t \<in> set ta. 0 \<le> time_of h t) \<and> (\<forall>t \<in> set td. 0 \<le> time_of h t) \<and>
          parsed_count h ta = parsed_count h td \<longrightarrow>
            (\<exists>chans. config_times h outlink s = Inr chans \<and>
               length chans = nat (link_channels outlink) \<and>
               (\<forall>k < length ta. attack (chans ! k) = time_of h (ta ! k)) \<and>
               (\<forall>k. length ta \<le> k \<and> k < length chans \<longrightarrow> attack (chans ! k) = 0) \<and>
               (\<forall>k < length td. decay (chans ! k) = time_of h (td ! k)) \<and>
               (\<forall>k. length td \<le> k \<and> k < length chans \<longrightarrow> decay (chans ! k) = 0))) \<and>
         (\<not> ((\<forall>t \<in> set ta. 0 \<le> time_of h t) \<and> (\<forall>t \<in> set td. 0 \<le> time_of h t) \<and>
             parsed_count h ta = parsed_count h td) \<longrightarrow>
            config_times h outlink s = Inl EINVAL)"
proof -
  let ?nch = "link_channels outlink"
  let ?c0 = "replicate (nat ?nch) \<lparr>attack = 0, decay = 0, volume = 0\<rparr>"
  let ?sta = "(attacks s, ?c0, 0::int)"
  have head: "config_times h outlink s =
      (case times_loop h attack (\<lambda>v cp. cp\<lparr>attack := v\<rparr>) (count_items (attacks s)) 0 ?sta of
            Inl e \<Rightarrow> Inl e
          | Inr st_a \<Rightarrow>
              (case times_loop h decay (\<lambda>v cp. cp\<lparr>decay := v\<rparr>) (count_items (decays s)) 0
                      (decays s, fst (snd st_a), 0) of
                 Inl e \<Rightarrow> Inl e
               | Inr st_d \<Rightarrow>
                   if snd (snd st_a) \<noteq> snd (snd st_d) then Inl EINVAL
                   else Inr (fst (snd st_d))))"
    using nch ca cd m by (simp add: config_times_def Let_def)
  have a1: "tokens (nat (count_items (attacks s)) - 0) (fst ?sta) = Some ta"
    using ta by (simp add: items_def)
  have a2: "nat (count_items (attacks s)) \<le> length (fst (snd ?sta))"
    using ca by simp
  have a3: "\<forall>k. 0 \<le> k \<and> k < length (fst (snd ?sta)) \<longrightarrow> attack (fst (snd ?sta) ! k) = 0"
    by simp
  note A = times_loop_result[where get = attack and put = "\<lambda>v cp. cp\<lparr>attack := v\<rparr>"
      and keep = decay and h = h, OF _ _ a1 a2 a3, simplified]
  have lta: "length ta \<le> nat ?nch"
    using tokens_length[of _ "attacks s" ta] ta ca by (simp add: items_def)
  show ?thesis
  proof (cases "\<forall>t \<in> set ta. 0 \<le> time_of h t")
    case False
    with A have "times_loop h attack (\<lambda>v cp. cp\<lparr>attack := v\<rparr>) (count_items (attacks s)) 0 ?sta
                   = Inl EINVAL" by simp
    with False show ?thesis by (simp add: head)
  next
    case ga: True
    with A obtain rest_a chans_a cnt_a where
      ra: "times_loop h attack (\<lambda>v cp. cp\<lparr>attack := v\<rparr>) (count_items (attacks s)) 0 ?sta
             = Inr (rest_a, chans_a, cnt_a)" and
      na: "cnt_a = parsed_count h ta" and
      la: "length chans_a = nat ?nch" and
      va: "\<forall>k < length ta. attack (chans_a ! k) = time_of h (ta ! k)" and
      za: "\<forall>k. length ta \<le> k \<longrightarrow> chans_a ! k = ?c0 ! k" and
      ka: "\<forall>k < nat ?nch. decay (chans_a ! k) = 0"
      by auto
    let ?std = "(decays s, chans_a, 0::int)"
    have d1: "tokens (nat (count_items (decays s)) - 0) (fst ?std) = Some td"
      using td by (simp add: items_def)
    have d2: "nat (count_items (decays s)) \<le> length (fst (snd ?std))"
      using cd la by simp
    have d3: "\<forall>k. 0 \<le> k \<and> k < length (fst (snd ?std)) \<longrightarrow> decay (fst (snd ?std) ! k) = 0"
      using ka la by simp
    note D = times_loop_result[where get = decay and put = "\<lambda>v cp. cp\<lparr>decay := v\<rparr>"
        and keep = attack and h = h, OF _ _ d1 d2 d3, simplified]
    have head2: "config_times h outlink s =
              (case times_loop h decay (\<lambda>v cp. cp\<lparr>decay := v\<rparr>) (count_items (decays s)) 0 ?std of
                 Inl e \<Rightarrow> Inl e
               | Inr st_d \<Rightarrow>
                   if cnt_a \<noteq> snd (snd st_d) then Inl EINVAL
                   else Inr (fst (snd st_d)))"
      by (auto simp: head ra split: sum.splits)
    show ?thesis
    proof (cases "\<forall>t \<in> set td. 0 \<le> time_of h t")
      case False
      with D have "times_loop h decay (\<lambda>v cp. cp\<lparr>decay := v\<rparr>) (count_items (decays s)) 0 ?std
                   = Inl EINVAL" by simp
      with False show ?thesis by (simp add: head2)
    next
      case gd: True
      with D obtain rest_d chans_d cnt_d where
        rd: "times_loop h decay (\<lambda>v cp. cp\<lparr>decay := v\<rparr>) (count_items (decays s)) 0 ?std
             = Inr (rest_d, chans_d, cnt_d)" and
        nd: "cnt_d = parsed_count h td" and
        ld: "length chans_d = length chans_a" and
        vd: "\<forall>k < length td. decay (chans_d ! k) = time_of h (td ! k)" and
        zd: "\<forall>k. length td \<le> k \<longrightarrow> chans_d ! k = chans_a ! k" and
        kd: "\<forall>k < length chans_a. attack (chans_d ! k) = attack (chans_a ! k)"
        by auto
      have res: "config_times h outlink s =
                   (if parsed_count h ta \<noteq> parsed_count h td then Inl EINVAL else Inr chans_d)"
        by (simp add: head2 rd na nd)
      have p1: "\<forall>k < length ta. attack (chans_d ! k) = time_of h (ta ! k)"
        using va kd lta la by simp
      have p2: "\<forall>k. length ta \<le> k \<and> k < length chans_d \<longrightarrow> attack (chans_d ! k) = 0"
        using za kd la ld by simp
      have p3: "\<forall>k. length td \<le> k \<and> k < length chans_d \<longrightarrow> decay (chans_d ! k) = 0"
        using zd ka la ld by simp
      show ?thesis
        using res ga gd la ld p1 p2 p3 vd by simp
    qed
  qed
qed

lemma config_times_Inr:
  assumes "config_times h outlink s = Inr chans"
  shows "0 < link_channels outlink \<and>
         count_items (attacks s) \<le> link_channels outlink \<and>
         count_items (decays s) \<le> link_channels outlink \<and> malloc_ok h \<and>
         (\<exists>ta td. items (attacks s) = Some ta \<and> items (decays s) = Some td \<and>
            (\<forall>t \<in> set ta. 0 \<le> time_of h t) \<and> (\<forall>t \<in> set td. 0 \<le> time_of h t) \<and>
            parsed_count h ta = parsed_count h td \<and>
            length chans = nat (link_channels outlink) \<and>
            (\<forall>k < length ta. attack (chans ! k) = time_of h (ta ! k)) \<and>
            (\<forall>k. length ta \<le> k \<and> k < length chans \<longrightarrow> attack (chans ! k) = 0) \<and>
            (\<forall>k < length td. decay (chans ! k) = time_of h (td ! k)) \<and>
            (\<forall>k. length td \<le> k \<and> k < length chans \<longrightarrow> decay (chans ! k) = 0))"
proof -
  let ?nch = "link_channels outlink"
  from assms have c: "0 < ?nch" "count_items (attacks s) \<le> ?nch"
      "count_items (decays s) \<le> ?nch" "malloc_ok h"
    by (auto simp: config_times_def Let_def split: if_splits)
  from assms c obtain st_a st_d where
    ra: "times_loop h attack (\<lambda>v cp. cp\<lparr>attack := v\<rparr>) (count_items (attacks s)) 0
           (attacks s, replicate (nat ?nch) \<lparr>attack = 0, decay = 0, volume = 0\<rparr>, 0) = Inr st_a" and
    rd: "times_loop h decay (\<lambda>v cp. cp\<lparr>decay := v\<rparr>) (count_items (decays s)) 0
           (decays s, fst (snd st_a), 0) = Inr st_d"
    by (auto simp: config_times_def Let_def split: if_splits sum.splits)
  from times_loop_Inr_tokens[OF ra] obtain ta where ta: "items (attacks s) = Some ta"
    by (auto simp: items_def)
  from times_loop_Inr_tokens[OF rd] obtain td where td: "items (decays s) = Some td"
    by (auto simp: items_def)
  note R = config_times_result[OF c ta td]
  have good: "(\<forall>t \<in> set ta. 0 \<le> time_of h t) \<and> (\<forall>t \<in> set td. 0 \<le> time_of h t) \<and>
          parsed_count h ta = parsed_count h td"
  proof (rule ccontr)
    assume "\<not> ?thesis"
    with R have "config_times h outlink s = Inl EINVAL" by blast
    with assms show False by simp
  qed
  with R assms c ta td show ?thesis by auto
qed

text \<open>What \<^verbatim>\<open>config_output\<close> does with the control points, by the items.\<close>

lemma config_curve_result:
  assumes tp: "items (points s) = Some tp"
  shows "(points_acceptable h tp \<longrightarrow>
            (\<exists>segs. config_curve h s = Inr segs \<and>
               length segs = nat ((count_items (points s) + 4) * 2))) \<and>
         (\<not> points_acceptable h tp \<longrightarrow> config_curve h s = Inl EINVAL)"
proof -
  let ?nb = "count_items (points s)"
  let ?st = "(points s, replicate (nat ((?nb + 4) * 2))
                \<lparr>seg_x = 0, seg_y = 0, seg_a = 0, seg_b = 0\<rparr>, 0::nat)"
  have pos: "1 \<le> ?nb" by (rule count_items_pos)
  have eq: "nat ((?nb + 4) * 2) = 2 * nat ?nb + 8"
    using pos by (simp add: nat_add_distrib nat_mult_distrib)
  have t: "tokens (nat ?nb - 0) (fst ?st) = Some tp" using tp by (simp add: items_def)
  have l: "2 * nat ?nb < length (fst (snd ?st))" using eq by simp
  have R: "(points_acceptable h tp \<longrightarrow> (\<exists>st'. points_loop h ?nb 0 ?st = Inr st')) \<and>
           (\<not> points_acceptable h tp \<longrightarrow> points_loop h ?nb 0 ?st = Inl EINVAL)"
    using points_loop_result[OF t l, of h] by (simp only: simp_thms if_True points_ok_from_None)
  show ?thesis
  proof (cases "points_acceptable h tp")
    case True
    with R obtain st_p where "points_loop h ?nb 0 ?st = Inr st_p" by auto
    from config_curve_ok[OF this] True show ?thesis by simp
  next
    case False
    with R have "points_loop h ?nb 0 ?st = Inl EINVAL" by simp
    with False show ?thesis by (simp add: config_curve_def Let_def)
  qed
qed


lemma config_delay_Inr:
  assumes "config_delay h outlink s = Inr s'"
  shows "- (2 ^ 31) \<le> double_to_int (delay s * real_of_int (sample_rate outlink)) \<and>
         double_to_int (delay s * real_of_int (sample_rate outlink)) < 2 ^ 31 \<and>
         (double_to_int (delay s * real_of_int (sample_rate outlink)) \<le> 0 \<and>
            s' = s\<lparr>delay_samples := double_to_int (delay s * real_of_int (sample_rate outlink)),
                   compand := Some Compand_nodelay\<rparr> \<or>
          0 < double_to_int (delay s * real_of_int (sample_rate outlink)) \<and>
            frame_alloc_ok h \<and> get_buffer_err h = 0 \<and>
            s' = s\<lparr>delay_samples := double_to_int (delay s * real_of_int (sample_rate outlink)),
                   delay_frame :=
                     Some (ff_get_audio_buffer (nb_channels s)
                       (double_to_int (delay s * real_of_int (sample_rate outlink)))),
                   compand := Some Compand_delay\<rparr>)"
  using assms by (auto simp: config_delay_def Let_def split: if_splits)

lemma config_delay_ok:
  assumes "- (2 ^ 31) \<le> double_to_int (delay s * real_of_int (sample_rate outlink))"
    and "double_to_int (delay s * real_of_int (sample_rate outlink)) < 2 ^ 31"
    and "double_to_int (delay s * real_of_int (sample_rate outlink)) \<le> 0 \<or>
         frame_alloc_ok h \<and> get_buffer_err h = 0"
  shows "\<exists>s'. config_delay h outlink s = Inr s'"
  using assms by (auto simp: config_delay_def Let_def)

text \<open>The state \<^verbatim>\<open>config_output\<close> hands to its last part.\<close>

lemma config_output_Inr:
  assumes "config_output h outlink s = Inr s'"
  shows "\<exists>chans segs. config_times h outlink s = Inr chans \<and> config_curve h s = Inr segs \<and>
           config_delay h outlink (configured outlink s chans segs) = Inr s'"
  using assms by (auto simp: config_output_def configured_def split: sum.splits)

lemma config_output_ok:
  assumes nch: "0 < link_channels outlink"
    and ca: "count_items (attacks s) \<le> link_channels outlink"
    and cd: "count_items (decays s) \<le> link_channels outlink"
    and m: "malloc_ok h"
    and ta: "items (attacks s) = Some ta" and td: "items (decays s) = Some td"
    and ga: "\<forall>t \<in> set ta. 0 \<le> time_of h t" and gd: "\<forall>t \<in> set td. 0 \<le> time_of h t"
    and pc: "parsed_count h ta = parsed_count h td"
    and tp: "items (points s) = Some tp" and pa: "points_acceptable h tp"
    and d1: "- (2 ^ 31) \<le> double_to_int (delay s * real_of_int (sample_rate outlink))"
    and d2: "double_to_int (delay s * real_of_int (sample_rate outlink)) < 2 ^ 31"
    and d3: "double_to_int (delay s * real_of_int (sample_rate outlink)) \<le> 0 \<or>
         frame_alloc_ok h \<and> get_buffer_err h = 0"
  shows "\<exists>s'. config_output h outlink s = Inr s'"
proof -
  from config_times_result[OF nch ca cd m ta td] ga gd pc obtain chans where
    c: "config_times h outlink s = Inr chans" by blast
  from config_curve_result[OF tp, of h] pa obtain segs where
    g: "config_curve h s = Inr segs" by blast
  have dl: "delay (configured outlink s chans segs) = delay s"
    by (simp add: configured_def)
  from config_delay_ok[of "configured outlink s chans segs" outlink h] d1 d2 d3 dl
  obtain s' where "config_delay h outlink (configured outlink s chans segs) = Inr s'"
    by auto
  then show ?thesis using c g by (simp add: config_output_def configured_def)
qed

lemma config_output_fields:
  assumes "config_output h outlink s = Inr s'"
  obtains chans segs where
    "config_times h outlink s = Inr chans" and "config_curve h s = Inr segs" and
    "nb_channels s' = link_channels outlink" and
    "channels s' = map (channel_setup (sample_rate outlink) (initial_volume s)) chans" and
    "segments s' = segs" and
    "in_min_lin s' = exp (seg_x (segs ! 1))" and "out_min_lin s' = exp (seg_y (segs ! 1))" and
    "delay_count s' = delay_count s" and "delay_index s' = delay_index s" and
    "delay_samples s' = double_to_int (delay s * real_of_int (sample_rate outlink))" and
    "- (2 ^ 31) \<le> delay_samples s'" and "delay_samples s' < 2 ^ 31" and
    "delay_samples s' \<le> 0 \<longrightarrow> compand s' = Some Compand_nodelay \<and> delay_frame s' = None" and
    "0 < delay_samples s' \<longrightarrow> compand s' = Some Compand_delay \<and>
       frame_alloc_ok h \<and> get_buffer_err h = 0 \<and>
       delay_frame s' = Some (ff_get_audio_buffer (link_channels outlink) (delay_samples s'))"
proof -
  from config_output_Inr[OF assms] obtain chans segs where
    c: "config_times h outlink s = Inr chans" and g: "config_curve h s = Inr segs" and
    d: "config_delay h outlink (configured outlink s chans segs) = Inr s'"
    by blast
  let ?n = "double_to_int (delay s * real_of_int (sample_rate outlink))"
  have dl: "delay (configured outlink s chans segs) = delay s"
    by (simp add: configured_def)
  from config_delay_Inr[OF d] have
    r: "- (2 ^ 31) \<le> ?n" "?n < 2 ^ 31" and
    cs: "?n \<le> 0 \<and> s' = (configured outlink s chans segs)
               \<lparr>delay_samples := ?n, compand := Some Compand_nodelay\<rparr> \<or>
         0 < ?n \<and> frame_alloc_ok h \<and> get_buffer_err h = 0 \<and>
           s' = (configured outlink s chans segs)
               \<lparr>delay_samples := ?n,
                delay_frame := Some (ff_get_audio_buffer
                   (nb_channels (configured outlink s chans segs)) ?n),
                compand := Some Compand_delay\<rparr>"
    unfolding dl by simp_all
  from cs show ?thesis
  proof
    assume a: "?n \<le> 0 \<and> s' = (configured outlink s chans segs)
               \<lparr>delay_samples := ?n, compand := Some Compand_nodelay\<rparr>"
    then have s': "s' = (configured outlink s chans segs)
               \<lparr>delay_samples := ?n, compand := Some Compand_nodelay\<rparr>" by simp
    show ?thesis
      using c g r a by (intro that[of chans segs]) (simp_all add: s' configured_def)
  next
    assume a: "0 < ?n \<and> frame_alloc_ok h \<and> get_buffer_err h = 0 \<and>
           s' = (configured outlink s chans segs)
               \<lparr>delay_samples := ?n,
                delay_frame := Some (ff_get_audio_buffer
                   (nb_channels (configured outlink s chans segs)) ?n),
                compand := Some Compand_delay\<rparr>"
    then have s': "s' = (configured outlink s chans segs)
               \<lparr>delay_samples := ?n,
                delay_frame := Some (ff_get_audio_buffer
                   (nb_channels (configured outlink s chans segs)) ?n),
                compand := Some Compand_delay\<rparr>" by simp
    show ?thesis
      using c g r a by (intro that[of chans segs]) (simp_all add: s' configured_def)
  qed
qed













lemma time_coefficient_short: "t \<le> 1 / real_of_int rate \<Longrightarrow> time_coefficient rate t = 1"
  by (simp add: time_coefficient_def)

lemma config_output_coefficients:
  assumes run: "config_output h outlink s = Inr s'"
    and ta: "items (attacks s) = Some ta" and td: "items (decays s) = Some td"
    and k: "k < nat (link_channels outlink)"
  shows "k < length (channels s') \<and>
         attack (channels s' ! k) =
           time_coefficient (sample_rate outlink) (if k < length ta then time_of h (ta ! k) else 0) \<and>
         decay (channels s' ! k) =
           time_coefficient (sample_rate outlink) (if k < length td then time_of h (td ! k) else 0) \<and>
         volume (channels s' ! k) = 10 powr (initial_volume s / 20)"
proof (rule config_output_fields[OF run])
  fix chans
  assume t: "config_times h outlink s = Inr chans"
    and c: "channels s' = map (channel_setup (sample_rate outlink) (initial_volume s)) chans"
  from config_times_Inr[OF t] ta td
  have l: "length chans = nat (link_channels outlink)"
    and a: "\<forall>k < length ta. attack (chans ! k) = time_of h (ta ! k)"
      "\<forall>k. length ta \<le> k \<and> k < length chans \<longrightarrow> attack (chans ! k) = 0"
    and d: "\<forall>k < length td. decay (chans ! k) = time_of h (td ! k)"
      "\<forall>k. length td \<le> k \<and> k < length chans \<longrightarrow> decay (chans ! k) = 0"
    by auto
  have kl: "k < length chans" using k l by simp
  have av: "attack (chans ! k) = (if k < length ta then time_of h (ta ! k) else 0)"
    using a kl by (cases "k < length ta") auto
  have dv: "decay (chans ! k) = (if k < length td then time_of h (td ! k) else 0)"
    using d kl by (cases "k < length td") auto
  show ?thesis
    using kl by (simp add: c channel_setup_def av dv)
qed

text \<open>The direction \<^verbatim>\<open>atan2\<close> gives: the unit vector along \<open>(u, v)\<close>.\<close>

lemma hypot_factor:
  assumes "u \<noteq> 0"
  shows "sqrt (u\<^sup>2 + v\<^sup>2) = \<bar>u\<bar> * sqrt (1 + (v / u)\<^sup>2)"
proof -
  have "\<bar>u\<bar> * sqrt (1 + (v / u)\<^sup>2) = sqrt (u\<^sup>2) * sqrt (1 + (v / u)\<^sup>2)" by simp
  also have "\<dots> = sqrt (u\<^sup>2 * (1 + (v / u)\<^sup>2))" by (rule real_sqrt_mult [symmetric])
  also have "u\<^sup>2 * (1 + (v / u)\<^sup>2) = u\<^sup>2 + v\<^sup>2"
    using assms by (simp add: power_divide field_simps)
  finally show ?thesis by simp
qed

lemma cos_atan2:
  assumes "u \<noteq> 0 \<or> v \<noteq> 0"
  shows "cos (atan2 v u) = u / sqrt (u\<^sup>2 + v\<^sup>2)"
proof -
  have pos: "0 < sqrt (1 + (v / u)\<^sup>2)"
    by (simp add: add_pos_nonneg)
  consider "0 < u" | "u < 0" | "u = 0" by linarith
  then show ?thesis
  proof cases
    case 1
    then have "cos (atan2 v u) = 1 / sqrt (1 + (v / u)\<^sup>2)"
      by (simp add: atan2_def cos_arctan)
    also have "\<dots> = u / (\<bar>u\<bar> * sqrt (1 + (v / u)\<^sup>2))" using 1 pos by simp
    finally show ?thesis using 1 by (simp only: hypot_factor[of u v, OF less_imp_neq[THEN not_sym]])
  next
    case 2
    then have "cos (atan2 v u) = - (1 / sqrt (1 + (v / u)\<^sup>2))"
      by (simp add: atan2_def cos_arctan)
    also have "\<dots> = u / (\<bar>u\<bar> * sqrt (1 + (v / u)\<^sup>2))" using 2 pos by simp
    finally show ?thesis using 2 by (simp only: hypot_factor[of u v, OF less_imp_neq])
  next
    case 3
    then show ?thesis using assms by (auto simp: atan2_def)
  qed
qed

lemma sin_atan2:
  assumes "u \<noteq> 0 \<or> v \<noteq> 0"
  shows "sin (atan2 v u) = v / sqrt (u\<^sup>2 + v\<^sup>2)"
proof -
  have pos: "0 < sqrt (1 + (v / u)\<^sup>2)"
    by (simp add: add_pos_nonneg)
  consider "0 < u" | "u < 0" | "u = 0" by linarith
  then show ?thesis
  proof cases
    case 1
    then have "sin (atan2 v u) = (v / u) / sqrt (1 + (v / u)\<^sup>2)"
      by (simp add: atan2_def sin_arctan)
    also have "\<dots> = v / (\<bar>u\<bar> * sqrt (1 + (v / u)\<^sup>2))" using 1 pos by simp
    finally show ?thesis using 1 by (simp only: hypot_factor[of u v, OF less_imp_neq[THEN not_sym]])
  next
    case 2
    then have "sin (atan2 v u) = - ((v / u) / sqrt (1 + (v / u)\<^sup>2))"
      by (simp add: atan2_def sin_arctan)
    also have "\<dots> = v / (\<bar>u\<bar> * sqrt (1 + (v / u)\<^sup>2))" using 2 pos by simp
    finally show ?thesis using 2 by (simp only: hypot_factor[of u v, OF less_imp_neq])
  next
    case 3
    then show ?thesis using assms by (auto simp: atan2_def)
  qed
qed

text \<open>
  A step of length \<open>r\<close>, at most \<open>c\<close> times the length of \<open>(u, v)\<close>, in the direction of
  \<open>(u, v)\<close> moves the \<open>x\<close>-coordinate by at most \<open>c * u\<close>.
\<close>

lemma step_along:
  assumes "0 \<le> u" and "0 \<le> r" and "0 \<le> c" and "r \<le> c * sqrt (u\<^sup>2 + v\<^sup>2)"
  shows "0 \<le> r * cos (atan2 v u) \<and> r * cos (atan2 v u) \<le> c * u"
proof (cases "u = 0 \<and> v = 0")
  case True
  then have "r = 0" using assms(2,4) by simp
  then show ?thesis using True by simp
next
  case False
  define len where "len = sqrt (u\<^sup>2 + v\<^sup>2)"
  have "0 < u\<^sup>2 + v\<^sup>2" using False unfolding sum_power2_gt_zero_iff by blast
  then have len: "0 < len" unfolding len_def by (simp only: real_sqrt_gt_0_iff)
  have c: "cos (atan2 v u) = u / len" unfolding len_def using False by (intro cos_atan2) blast
  have "r * (u / len) \<le> (c * len) * (u / len)"
    using assms(1,4) len unfolding len_def [symmetric]
    by (intro mult_right_mono) simp_all
  also have "\<dots> = c * u" using len by simp
  finally have "r * (u / len) \<le> c * u" .
  moreover have "0 \<le> r * (u / len)" using assms(1,2) len by simp
  ultimately show ?thesis unfolding c by simp
qed


text \<open>What one pass of the soft-knee loop does to the knots.\<close>

lemma knee_slopes_xy:
  assumes "4 \<le> i" and "i < length segs"
  shows "seg_x (knee_slopes i segs ! k) = seg_x (segs ! k) \<and>
         seg_y (knee_slopes i segs ! k) = seg_y (segs ! k)"
proof -
  have l: "i - 4 < length segs" "i - 2 < length segs" "i - 4 \<noteq> i - 2" "i - 2 \<noteq> i - 4"
    using assms by simp_all
  show ?thesis
    unfolding knee_slopes_def Let_def
    by (cases "k = i - 2"; cases "k = i - 4") (simp_all add: nth_list_update l)
qed

lemma knee_entry_nth:
  assumes "i < length segs"
  shows "knee_entry radius i segs ! k =
     (if k = i - 3 then
        (segs ! (i - 3))
          \<lparr>seg_x := seg_x (segs ! (i - 2)) -
              knee_radius_in radius (seg_len (segs ! (i - 4)) (segs ! (i - 2))) *
              cos (atan2 (seg_y (segs ! (i - 2)) - seg_y (segs ! (i - 4)))
                         (seg_x (segs ! (i - 2)) - seg_x (segs ! (i - 4)))),
           seg_y := seg_y (segs ! (i - 2)) -
              knee_radius_in radius (seg_len (segs ! (i - 4)) (segs ! (i - 2))) *
              sin (atan2 (seg_y (segs ! (i - 2)) - seg_y (segs ! (i - 4)))
                         (seg_x (segs ! (i - 2)) - seg_x (segs ! (i - 4))))\<rparr>
      else segs ! k)"
proof -
  have l: "i - 3 < length segs" using assms by simp
  show ?thesis
    unfolding knee_entry_def Let_def seg_len_def
    by (simp add: nth_list_update l)
qed

lemma knee_fit_xy:
  assumes "4 \<le> i" and "i < length segs"
  shows "seg_x (knee_fit i xy segs ! k) = (if k = i - 2 then fst xy else seg_x (segs ! k)) \<and>
         seg_y (knee_fit i xy segs ! k) = (if k = i - 2 then snd xy else seg_y (segs ! k))"
proof -
  have l: "i - 3 < length segs" "i - 2 < length segs" "i - 3 \<noteq> i - 2" "i - 2 \<noteq> i - 3"
    using assms by simp_all
  show ?thesis
    unfolding knee_fit_def Let_def
    by (cases "k = i - 2"; cases "k = i - 3") (simp_all add: nth_list_update l)
qed

lemma knee_body_knots:
  assumes i: "4 \<le> i" and len: "i < length segs"
  shows "seg_x (knee_body radius i segs ! k) =
     (if k = i - 3 then
        seg_x (segs ! (i - 2)) -
          knee_radius_in radius (seg_len (segs ! (i - 4)) (segs ! (i - 2))) *
          cos (atan2 (seg_y (segs ! (i - 2)) - seg_y (segs ! (i - 4)))
                     (seg_x (segs ! (i - 2)) - seg_x (segs ! (i - 4))))
      else if k = i - 2 then
        seg_x (segs ! (i - 2)) +
          knee_radius_out radius (seg_len (segs ! (i - 2)) (segs ! i)) *
          cos (atan2 (seg_y (segs ! i) - seg_y (segs ! (i - 2)))
                     (seg_x (segs ! i) - seg_x (segs ! (i - 2))))
      else seg_x (segs ! k))"
    and "seg_y (knee_body radius i segs ! k) =
     (if k = i - 3 then
        seg_y (segs ! (i - 2)) -
          knee_radius_in radius (seg_len (segs ! (i - 4)) (segs ! (i - 2))) *
          sin (atan2 (seg_y (segs ! (i - 2)) - seg_y (segs ! (i - 4)))
                     (seg_x (segs ! (i - 2)) - seg_x (segs ! (i - 4))))
      else if k = i - 2 then
        seg_y (segs ! (i - 2)) +
          knee_radius_out radius (seg_len (segs ! (i - 2)) (segs ! i)) *
          sin (atan2 (seg_y (segs ! i) - seg_y (segs ! (i - 2)))
                     (seg_x (segs ! i) - seg_x (segs ! (i - 2))))
      else seg_y (segs ! k))"
proof -
  define s1 where "s1 = knee_slopes i segs"
  define s3 where "s3 = knee_entry radius i s1"
  have l1: "i < length s1" using len by (simp add: s1_def)
  have l3: "i < length s3" using l1 by (simp add: s3_def)
  have x1: "seg_x (s1 ! j) = seg_x (segs ! j)" "seg_y (s1 ! j) = seg_y (segs ! j)" for j
    using knee_slopes_xy[OF i len, of j] by (simp_all add: s1_def)
  have n: "i - 2 \<noteq> i - 3" "i \<noteq> i - 3" using i by simp_all
  have e3: "s3 ! j =
     (if j = i - 3 then
        (s1 ! (i - 3))
          \<lparr>seg_x := seg_x (segs ! (i - 2)) -
              knee_radius_in radius (seg_len (segs ! (i - 4)) (segs ! (i - 2))) *
              cos (atan2 (seg_y (segs ! (i - 2)) - seg_y (segs ! (i - 4)))
                         (seg_x (segs ! (i - 2)) - seg_x (segs ! (i - 4)))),
           seg_y := seg_y (segs ! (i - 2)) -
              knee_radius_in radius (seg_len (segs ! (i - 4)) (segs ! (i - 2))) *
              sin (atan2 (seg_y (segs ! (i - 2)) - seg_y (segs ! (i - 4)))
                         (seg_x (segs ! (i - 2)) - seg_x (segs ! (i - 4))))\<rparr>
      else s1 ! j)" for j
    unfolding s3_def knee_entry_nth[OF l1] seg_len_def x1 ..
  have x3: "seg_x (s3 ! (i - 2)) = seg_x (segs ! (i - 2))" "seg_y (s3 ! (i - 2)) = seg_y (segs ! (i - 2))"
    "seg_x (s3 ! i) = seg_x (segs ! i)" "seg_y (s3 ! i) = seg_y (segs ! i)"
    using n by (simp_all add: e3 x1)
  have ex: "knee_exit radius i s3 =
     (seg_x (segs ! (i - 2)) +
          knee_radius_out radius (seg_len (segs ! (i - 2)) (segs ! i)) *
          cos (atan2 (seg_y (segs ! i) - seg_y (segs ! (i - 2)))
                     (seg_x (segs ! i) - seg_x (segs ! (i - 2)))),
      seg_y (segs ! (i - 2)) +
          knee_radius_out radius (seg_len (segs ! (i - 2)) (segs ! i)) *
          sin (atan2 (seg_y (segs ! i) - seg_y (segs ! (i - 2)))
                     (seg_x (segs ! i) - seg_x (segs ! (i - 2)))))"
    unfolding knee_exit_def Let_def seg_len_def x3 ..
  have b: "knee_body radius i segs = knee_fit i (knee_exit radius i s3) s3"
    by (simp add: knee_body_def Let_def s3_def s1_def)
  show "seg_x (knee_body radius i segs ! k) =
     (if k = i - 3 then
        seg_x (segs ! (i - 2)) -
          knee_radius_in radius (seg_len (segs ! (i - 4)) (segs ! (i - 2))) *
          cos (atan2 (seg_y (segs ! (i - 2)) - seg_y (segs ! (i - 4)))
                     (seg_x (segs ! (i - 2)) - seg_x (segs ! (i - 4))))
      else if k = i - 2 then
        seg_x (segs ! (i - 2)) +
          knee_radius_out radius (seg_len (segs ! (i - 2)) (segs ! i)) *
          cos (atan2 (seg_y (segs ! i) - seg_y (segs ! (i - 2)))
                     (seg_x (segs ! i) - seg_x (segs ! (i - 2))))
      else seg_x (segs ! k))"
    unfolding b using knee_fit_xy[OF i l3, of "knee_exit radius i s3" k] n
    by (simp add: ex e3 x1)
  show "seg_y (knee_body radius i segs ! k) =
     (if k = i - 3 then
        seg_y (segs ! (i - 2)) -
          knee_radius_in radius (seg_len (segs ! (i - 4)) (segs ! (i - 2))) *
          sin (atan2 (seg_y (segs ! (i - 2)) - seg_y (segs ! (i - 4)))
                     (seg_x (segs ! (i - 2)) - seg_x (segs ! (i - 4))))
      else if k = i - 2 then
        seg_y (segs ! (i - 2)) +
          knee_radius_out radius (seg_len (segs ! (i - 2)) (segs ! i)) *
          sin (atan2 (seg_y (segs ! i) - seg_y (segs ! (i - 2)))
                     (seg_x (segs ! i) - seg_x (segs ! (i - 2))))
      else seg_y (segs ! k))"
    unfolding b using knee_fit_xy[OF i l3, of "knee_exit radius i s3" k] n
    by (simp add: ex e3 x1)
qed


text \<open>
  The rounded corner stays between the neighbouring knots: the point before the knot
  lies on the segment from the previous knot, the point after it in the first half
  of the segment to the next knot.
\<close>

lemma knee_radius_bounds:
  assumes "0 \<le> radius" and "0 \<le> len"
  shows "0 \<le> knee_radius_in radius len" "knee_radius_in radius len \<le> len"
    "0 \<le> knee_radius_out radius len" "knee_radius_out radius len \<le> len / 2"
  using assms by (simp_all add: knee_radius_in_def knee_radius_out_def FFMIN_def)

lemma seg_len_nonneg: "0 \<le> seg_len p q"
  by (simp add: seg_len_def)

lemma knee_body_within:
  assumes i: "4 \<le> i" and len: "i < length segs" and r: "0 \<le> radius"
    and o1: "seg_x (segs ! (i - 4)) \<le> seg_x (segs ! (i - 2))"
    and o2: "seg_x (segs ! (i - 2)) \<le> seg_x (segs ! i)"
  shows "seg_x (segs ! (i - 4)) \<le> seg_x (knee_body radius i segs ! (i - 3))"
    and "seg_x (knee_body radius i segs ! (i - 3)) \<le> seg_x (segs ! (i - 2))"
    and "seg_x (segs ! (i - 2)) \<le> seg_x (knee_body radius i segs ! (i - 2))"
    and "seg_x (knee_body radius i segs ! (i - 2)) \<le> (seg_x (segs ! (i - 2)) + seg_x (segs ! i)) / 2"
proof -
  let ?rin = "knee_radius_in radius (seg_len (segs ! (i - 4)) (segs ! (i - 2)))"
  let ?rout = "knee_radius_out radius (seg_len (segs ! (i - 2)) (segs ! i))"
  have n: "i - 2 \<noteq> i - 3" using i by simp
  have a: "0 \<le> ?rin * cos (atan2 (seg_y (segs ! (i - 2)) - seg_y (segs ! (i - 4)))
                     (seg_x (segs ! (i - 2)) - seg_x (segs ! (i - 4)))) \<and>
           ?rin * cos (atan2 (seg_y (segs ! (i - 2)) - seg_y (segs ! (i - 4)))
                     (seg_x (segs ! (i - 2)) - seg_x (segs ! (i - 4))))
             \<le> 1 * (seg_x (segs ! (i - 2)) - seg_x (segs ! (i - 4)))"
    using o1 knee_radius_bounds(1,2)[OF r seg_len_nonneg, of "segs ! (i - 4)" "segs ! (i - 2)"]
    by (intro step_along) (simp_all add: seg_len_def)
  have b: "0 \<le> ?rout * cos (atan2 (seg_y (segs ! i) - seg_y (segs ! (i - 2)))
                     (seg_x (segs ! i) - seg_x (segs ! (i - 2)))) \<and>
           ?rout * cos (atan2 (seg_y (segs ! i) - seg_y (segs ! (i - 2)))
                     (seg_x (segs ! i) - seg_x (segs ! (i - 2))))
             \<le> 1 / 2 * (seg_x (segs ! i) - seg_x (segs ! (i - 2)))"
    using o2 knee_radius_bounds(3,4)[OF r seg_len_nonneg, of "segs ! (i - 2)" "segs ! i"]
    by (intro step_along) (simp_all add: seg_len_def)
  show "seg_x (segs ! (i - 4)) \<le> seg_x (knee_body radius i segs ! (i - 3))"
    and "seg_x (knee_body radius i segs ! (i - 3)) \<le> seg_x (segs ! (i - 2))"
    using a by (simp_all add: knee_body_knots(1)[OF i len])
  show "seg_x (segs ! (i - 2)) \<le> seg_x (knee_body radius i segs ! (i - 2))"
    and "seg_x (knee_body radius i segs ! (i - 2)) \<le> (seg_x (segs ! (i - 2)) + seg_x (segs ! i)) / 2"
    using b n by (simp_all add: knee_body_knots(1)[OF i len])
qed

lemma knee_body_distance:
  assumes i: "4 \<le> i" and len: "i < length segs" and r: "0 \<le> radius"
  shows "seg_len (knee_body radius i segs ! (i - 3)) (segs ! (i - 2)) =
           knee_radius_in radius (seg_len (segs ! (i - 4)) (segs ! (i - 2)))"
    and "seg_len (segs ! (i - 2)) (knee_body radius i segs ! (i - 2)) =
           knee_radius_out radius (seg_len (segs ! (i - 2)) (segs ! i))"
proof -
  have n: "i - 2 \<noteq> i - 3" using i by simp
  have d: "sqrt ((q * cos t)\<^sup>2 + (q * sin t)\<^sup>2) = q" if "0 \<le> q" for q t :: real
  proof -
    have "(q * cos t)\<^sup>2 + (q * sin t)\<^sup>2 = q\<^sup>2 * ((cos t)\<^sup>2 + (sin t)\<^sup>2)"
      by (simp only: power_mult_distrib distrib_left)
    also have "\<dots> = q\<^sup>2" by (simp only: sin_cos_squared_add2 mult_1_right)
    finally show ?thesis using that by simp
  qed
  show "seg_len (knee_body radius i segs ! (i - 3)) (segs ! (i - 2)) =
           knee_radius_in radius (seg_len (segs ! (i - 4)) (segs ! (i - 2)))"
    using knee_radius_bounds(1)[OF r seg_len_nonneg, of "segs ! (i - 4)" "segs ! (i - 2)"]
    by (subst seg_len_def) (simp add: knee_body_knots[OF i len] d)
  show "seg_len (segs ! (i - 2)) (knee_body radius i segs ! (i - 2)) =
           knee_radius_out radius (seg_len (segs ! (i - 2)) (segs ! i))"
    using knee_radius_bounds(3)[OF r seg_len_nonneg, of "segs ! (i - 2)" "segs ! i"] n
    by (subst seg_len_def) (simp add: knee_body_knots[OF i len] d)
qed

text \<open>
  The finished curve has a knot with \<open>x = 0\<close> at an index from 2 on: the knot at which
  the soft-knee loop stopped.
\<close>

lemma knee_loop_stop:
  "knee_loop radius i segs = Inr (i', segs') \<Longrightarrow>
     seg_x (segs' ! (i' - 2)) = 0 \<and> i \<le> i' \<and> length segs' = length segs \<and>
     (i - 2 < length segs \<longrightarrow> i' - 2 < length segs)"
proof (induction radius i segs rule: knee_loop.induct)
  case (1 radius i segs)
  show ?case
  proof (cases "seg_x (segs ! (i - 2)) \<noteq> 0")
    case True
    show ?thesis
    proof (cases "length segs \<le> i")
      case True
      with \<open>seg_x (segs ! (i - 2)) \<noteq> 0\<close> "1.prems" show ?thesis
        by (subst (asm) knee_loop.simps) simp
    next
      case False
      with True "1.prems"
      have r: "knee_loop radius (i + 2) (knee_body radius i segs) = Inr (i', segs')"
        by (subst (asm) knee_loop.simps) simp
      from "1.IH"[OF True False r] False show ?thesis by simp
    qed
  next
    case False
    with "1.prems" show ?thesis by (subst (asm) knee_loop.simps) simp
  qed
qed

lemma db_to_ln_loop_length:
  "db_to_ln_loop gain i segs = Inr segs' \<Longrightarrow> length segs' = length segs"
proof (induction gain i segs rule: db_to_ln_loop.induct)
  case (1 gain i segs)
  show ?case
  proof (cases "i = 0 \<or> seg_x (segs ! (i - 2)) \<noteq> 0")
    case True
    show ?thesis
    proof (cases "length segs \<le> i")
      case True
      with \<open>i = 0 \<or> seg_x (segs ! (i - 2)) \<noteq> 0\<close> "1.prems" show ?thesis
        by (subst (asm) db_to_ln_loop.simps) simp
    next
      case False
      with True "1.prems"
      have r: "db_to_ln_loop gain (i + 2)
                (segs[i := (segs ! i)
                   \<lparr>seg_x := seg_x (segs ! i) * (M_LN10 / 20),
                    seg_y := (seg_y (segs ! i) + gain) * (M_LN10 / 20)\<rparr>]) = Inr segs'"
        by (subst (asm) db_to_ln_loop.simps) simp
      from "1.IH"[OF True False r] show ?thesis by simp
    qed
  next
    case False
    with "1.prems" show ?thesis by (subst (asm) db_to_ln_loop.simps) simp
  qed
qed

lemma length_join_loop: "length (snd (join_loop i num segs)) = length segs"
proof (induction i num segs rule: join_loop.induct)
  case (1 i num segs)
  show ?case
  proof (cases "i < num")
    case True
    then show ?thesis
      using "1.IH" by (subst join_loop.simps) (simp add: Let_def)
  next
    case False
    then show ?thesis by (subst join_loop.simps) simp
  qed
qed

lemma build_curve_end:
  assumes "build_curve curve gain radius n segs0 = Inr segs" and "2 < length segs0"
  shows "length segs = length segs0 \<and>
         (\<exists>k. 2 \<le> k \<and> k < length segs \<and> seg_x (segs ! k) = 0)"
proof -
  define num where "num = (if n = 0 \<or> seg_x (segs0 ! S_first (n - 1)) \<noteq> 0 then n + 1 else n)"
  define segs1 where "segs1 = segs0[S_second 0 := (segs0 ! S_second 0)
                    \<lparr>seg_x := seg_x (segs0 ! S_second 1) - 2 * curve,
                     seg_y := seg_y (segs0 ! S_second 1)\<rparr>]"
  define joined where "joined = snd (join_loop 2 (num + 1) segs1)"
  have lj: "length joined = length segs0"
    by (simp add: joined_def length_join_loop segs1_def)
  have b: "build_curve curve gain radius n segs0 =
     (case db_to_ln_loop gain 0 joined of
           Inl e \<Rightarrow> Inl e
         | Inr segs2 \<Rightarrow>
             (case knee_loop radius 4 segs2 of
                Inl e \<Rightarrow> Inl e
              | Inr (i, segs3) \<Rightarrow>
                  Inr (segs3[i - 3 := (segs3 ! (i - 3))
                         \<lparr>seg_x := 0, seg_y := seg_y (segs3 ! (i - 2))\<rparr>])))"
    by (simp add: build_curve_def Let_def joined_def segs1_def num_def)
  from assms(1) obtain segs2 where s2: "db_to_ln_loop gain 0 joined = Inr segs2"
    unfolding b by (cases "db_to_ln_loop gain 0 joined") simp_all
  from assms(1) obtain i segs3 where s3: "knee_loop radius 4 segs2 = Inr (i, segs3)"
    unfolding b s2 by (cases "knee_loop radius 4 segs2") auto
  have segs: "segs = segs3[i - 3 := (segs3 ! (i - 3))\<lparr>seg_x := 0, seg_y := seg_y (segs3 ! (i - 2))\<rparr>]"
    using assms(1) s3 unfolding b s2 by (auto split: sum.splits prod.splits)
  have l2: "length segs2 = length segs0"
    using db_to_ln_loop_length[OF s2] lj by simp
  from knee_loop_stop[OF s3] l2 assms(2)
  have k: "seg_x (segs3 ! (i - 2)) = 0" "4 \<le> i" "length segs3 = length segs0" "i - 2 < length segs0"
    by simp_all
  have "seg_x (segs ! (i - 2)) = 0" using k(1,2) unfolding segs by simp
  moreover have "2 \<le> i - 2" using k(2) by simp
  moreover have "length segs = length segs0" using k(3) unfolding segs by simp
  ultimately show ?thesis using k(4) by auto
qed

lemma config_curve_end:
  assumes "config_curve h s = Inr segs"
  shows "\<exists>k. 2 \<le> k \<and> k < length segs \<and> seg_x (segs ! k) = 0"
proof -
  let ?nb = "count_items (points s)"
  let ?st = "(points s, replicate (nat ((?nb + 4) * 2))
                \<lparr>seg_x = 0, seg_y = 0, seg_a = 0, seg_b = 0\<rparr>, 0::nat)"
  from assms obtain st_p where p: "points_loop h ?nb 0 ?st = Inr st_p"
    unfolding config_curve_def Let_def by (cases "points_loop h ?nb 0 ?st") simp_all
  have b: "build_curve (curve_dB s) (gain_dB s) (curve_dB s * M_LN10 / 20)
            (snd (snd st_p)) (fst (snd st_p)) = Inr segs"
    using assms unfolding config_curve_def Let_def p by simp
  have "1 \<le> ?nb" by (rule count_items_pos)
  then have "int 0 \<le> ?nb" by simp
  from points_loop_frame[OF p this]
  have "length (fst (snd st_p)) = nat ((?nb + 4) * 2)" by simp
  then have "2 < length (fst (snd st_p))" using \<open>1 \<le> ?nb\<close> by simp
  from build_curve_end[OF b this] show ?thesis by blast
qed

lemma get_volume_within:
  assumes run: "config_output h outlink s = Inr s'" and lo: "in_min_lin s' \<le> v" and hi: "v \<le> 1"
  shows "\<exists>j. scan_segments (segments s') (ln v) 1 = Inr j \<and> j + 1 < length (segments s') \<and>
           ln v \<le> seg_x (segments s' ! (j + 1)) \<and>
           get_volume s' v =
             Inr (exp (seg_y (segments s' ! j) + (ln v - seg_x (segments s' ! j)) *
                    (seg_a (segments s' ! j) * (ln v - seg_x (segments s' ! j)) +
                     seg_b (segments s' ! j))))"
proof (rule config_output_fields[OF run])
  fix segs
  assume c: "config_curve h s = Inr segs" and s: "segments s' = segs"
    and m: "in_min_lin s' = exp (seg_x (segs ! 1))"
  have pos: "0 < v" using lo unfolding m by (rule less_le_trans[OF exp_gt_zero])
  then have l: "ln v \<le> 0" using hi by simp
  from config_curve_end[OF c] obtain k where
    k: "2 \<le> k" "k < length segs" "seg_x (segs ! k) = 0" by blast
  have "\<exists>j. scan_segments segs (ln v) 1 = Inr j \<and> 1 \<le> j \<and> j + 1 \<le> k \<and>
       ln v \<le> seg_x (segs ! (j + 1))"
    using k l by (intro scan_segments_found) simp_all
  then obtain j where j: "scan_segments segs (ln v) 1 = Inr j" "j + 1 \<le> k"
    "ln v \<le> seg_x (segs ! (j + 1))" by blast
  have "get_volume s' v =
             Inr (exp (seg_y (segs ! j) + (ln v - seg_x (segs ! j)) *
                    (seg_a (segs ! j) * (ln v - seg_x (segs ! j)) + seg_b (segs ! j))))"
    using lo pos j(1) by (auto simp: get_volume_def s Let_def split: sum.splits)
  then show ?thesis using j k(2) unfolding s by auto
qed
section \<open>Whole streams\<close>

text \<open>
  The filter is driven from outside: the upstream filter pushes frames into
  \<^verbatim>\<open>filter_frame\<close>, and after the end of the stream the downstream filter calls
  \<^verbatim>\<open>request_frame\<close> until it answers \<^verbatim>\<open>AVERROR_EOF\<close>.  The two functions below are
  these drivers; they collect the frames the filter hands downstream.
\<close>

definition frames_of :: "AVFrame option \<Rightarrow> AVFrame list" where
  "frames_of out = (case out of None \<Rightarrow> [] | Some f \<Rightarrow> [f])"








definition total_samples :: "AVFrame list \<Rightarrow> int" where
  "total_samples fs = sum_list (map nb_samples fs)"

lemma total_samples_simps [simp]:
  "total_samples [] = 0"
  "total_samples (f # fs) = nb_samples f + total_samples fs"
  "total_samples (fs @ gs) = total_samples fs + total_samples gs"
  by (simp_all add: total_samples_def)

lemma total_samples_frames_of [simp]: "total_samples (frames_of out) = frame_count out"
  by (simp add: frames_of_def frame_count_def split: option.splits)







section \<open>A small delay line, for the examples\<close>

text \<open>
  One channel, a delay of two samples, an empty delay line.  Every volume below 1 is
  under \<open>in_min_lin\<close>, so the gain is the floor gain \<open>1 / 2\<close>.
\<close>

text \<open>
  What \<^verbatim>\<open>sscanf\<close> reads from the option strings of the examples.
\<close>

definition example_sscanf_f :: "string \<Rightarrow> real option" where
  "example_sscanf_f t =
     (if t = ''0'' then Some 0
      else if t = ''0.3'' then Some (3 / 10)
      else if t = ''0.8'' then Some (8 / 10)
      else None)"

definition example_sscanf_ff :: "string \<Rightarrow> (real \<times> real) option" where
  "example_sscanf_ff t =
     (if t = ''0/0'' then Some (0, 0)
      else if t = ''-70/-70'' then Some (- 70, - 70)
      else if t = ''-60/-20'' then Some (- 60, - 20)
      else if t = ''-70/-20'' then Some (- 70, - 20)
      else None)"

definition example_host :: host where
  "example_host =
     \<lparr>malloc_ok = True, frame_alloc_ok = True, get_buffer_err = 0,
      audio_buffer_ok = True, copy_props_err = 0, frame_writable = True,
      sscanf_f = example_sscanf_f, sscanf_ff = example_sscanf_ff\<rparr>"

definition example_ctx :: CompandContext where
  "example_ctx =
     \<lparr>nb_channels = 1, attacks = ''0'', decays = ''0'', points = ''0/0'',
      segments = replicate 10 \<lparr>seg_x = 0, seg_y = 0, seg_a = 0, seg_b = 0\<rparr>,
      channels = [\<lparr>attack = 1, decay = 1, volume = 0\<rparr>],
      in_min_lin = 1, out_min_lin = 1 / 2,
      curve_dB = 1 / 100, gain_dB = 0, initial_volume = 0, delay = 2 / 44100,
      delay_frame = Some \<lparr>nb_samples = 2, extended_data = [[0, 0]]\<rparr>,
      delay_samples = 2, delay_count = 0, delay_index = 0,
      compand = Some Compand_delay\<rparr>"

definition example_frame :: AVFrame where
  "example_frame = \<lparr>nb_samples = 3, extended_data = [[1 / 8, 1 / 4, 1 / 2]]\<rparr>"

text \<open>The state after \<open>example_frame\<close>, and after the drain that follows.\<close>

definition example_ctx_fed :: CompandContext where
  "example_ctx_fed =
     example_ctx
       \<lparr>channels := [\<lparr>attack = 1, decay = 1, volume = 1 / 2\<rparr>],
        delay_frame := Some \<lparr>nb_samples = 2, extended_data = [[1 / 2, 1 / 4]]\<rparr>,
        delay_count := 2, delay_index := 1\<rparr>"

definition example_ctx_drained :: CompandContext where
  "example_ctx_drained = example_ctx_fed\<lparr>delay_count := 0, delay_index := 1\<rparr>"

lemma example_delay:
  "compand_delay example_host example_ctx example_frame =
     Inr (example_ctx_fed, Some \<lparr>nb_samples = 1, extended_data = [[1 / 16]]\<rparr>)"
  by (simp add: compand_delay_def example_ctx_def example_ctx_fed_def example_frame_def
      example_host_def delay_channels_loop.simps delay_samples_loop.simps delay_sample_def
      delay_emit_def update_volume_def get_volume_def ff_get_audio_buffer_def av_clipf_def
      MOD_def Let_def)

lemma example_drain:
  "compand_drain example_host example_ctx_fed =
     Inr (example_ctx_drained, \<lparr>nb_samples = 2, extended_data = [[1 / 8, 1 / 4]]\<rparr>)"
  by (simp add: compand_drain_def example_ctx_def example_ctx_fed_def example_ctx_drained_def
      example_host_def drain_channels_loop.simps drain_samples_loop.simps FFMIN_def
      get_volume_def ff_get_audio_buffer_def av_clipf_def MOD_def Let_def numeral_2_eq_2)

lemma example_inv:
  "delay_inv example_ctx" "delay_buffers_ok example_ctx"
  "delay_inv example_ctx_fed" "delay_buffers_ok example_ctx_fed"
  "delay_inv example_ctx_drained" "delay_buffers_ok example_ctx_drained"
  by (simp_all add: delay_inv_def delay_buffers_ok_def buffers_ok_def example_ctx_def
      example_ctx_fed_def example_ctx_drained_def)




definition example_frame_eighth :: AVFrame where
  "example_frame_eighth = \<lparr>nb_samples = 1, extended_data = [[1 / 8]]\<rparr>"






lemma example_delay_filling:
  "compand_delay example_host example_ctx example_frame_eighth =
     Inr (example_ctx
            \<lparr>channels := [\<lparr>attack = 1, decay = 1, volume = 1 / 8\<rparr>],
             delay_frame := Some \<lparr>nb_samples = 2, extended_data = [[1 / 8, 0]]\<rparr>,
             delay_count := 1, delay_index := 1\<rparr>,
          None)"
  by (simp add: compand_delay_def example_ctx_def example_frame_eighth_def
      example_host_def delay_channels_loop.simps delay_samples_loop.simps delay_sample_def
      delay_emit_def update_volume_def get_volume_def ff_get_audio_buffer_def av_clipf_def
      MOD_def Let_def)

text \<open>
  The options as the option table (lines 77--86) sets them, in a filter state that is
  otherwise zero, and an output link with one channel at 44100 Hz.
\<close>

definition compand_defaults :: CompandContext where
  "compand_defaults =
     \<lparr>nb_channels = 0, attacks = ''0.3'', decays = ''0.8'', points = ''-70/-70|-60/-20'',
      segments = [], channels = [], in_min_lin = 0, out_min_lin = 0,
      curve_dB = 1 / 100, gain_dB = 0, initial_volume = 0, delay = 0,
      delay_frame = None, delay_samples = 0, delay_count = 0, delay_index = 0,
      compand = None\<rparr>"

definition example_link :: AVFilterLink where
  "example_link = \<lparr>link_channels = 1, sample_rate = 44100\<rparr>"

lemma default_items:
  "items ''0.3'' = Some [''0.3'']" "items ''0.8'' = Some [''0.8'']"
  "items ''-70/-70|-60/-20'' = Some [''-70/-70'', ''-60/-20'']"
  "count_items ''0.3'' = 1" "count_items ''0.8'' = 1" "count_items ''-70/-70|-60/-20'' = 2"
  by (simp_all add: items_def count_items_def strtok_r_def eval_nat_numeral)

lemma default_parse:
  "time_of example_host ''0.3'' = 3 / 10" "time_of example_host ''0.8'' = 8 / 10"
  "parsed_count example_host [''0.3''] = 1" "parsed_count example_host [''0.8''] = 1"
  "points_acceptable example_host [''-70/-70'', ''-60/-20'']"
proof -
  have f: "sscanf_f example_host ''0.3'' = Some (3 / 10)"
    "sscanf_f example_host ''0.8'' = Some (8 / 10)"
    by (simp_all add: example_host_def example_sscanf_f_def)
  have ff: "sscanf_ff example_host ''-70/-70'' = Some (- 70, - 70)"
    "sscanf_ff example_host ''-60/-20'' = Some (- 60, - 20)"
    by (simp_all add: example_host_def example_sscanf_ff_def)
  show "time_of example_host ''0.3'' = 3 / 10" "time_of example_host ''0.8'' = 8 / 10"
    "parsed_count example_host [''0.3''] = 1" "parsed_count example_host [''0.8''] = 1"
    by (simp_all only: time_of_def parsed_count_simps f option.case option.distinct if_False)
  show "points_acceptable example_host [''-70/-70'', ''-60/-20'']"
    by (simp add: points_acceptable_def point_x_def ff)
qed

lemma default_config_ok:
  assumes "0 < link_channels outlink"
    and "delay_setup_ok example_host outlink (compand_defaults\<lparr>delay := d\<rparr>)"
  shows "\<exists>s'. config_output example_host outlink (compand_defaults\<lparr>delay := d\<rparr>) = Inr s'"
proof -
  let ?s = "compand_defaults\<lparr>delay := d\<rparr>"
  have f: "attacks ?s = ''0.3''" "decays ?s = ''0.8''" "points ?s = ''-70/-70|-60/-20''"
    by (simp_all add: compand_defaults_def)
  show ?thesis
  proof (rule config_output_ok[where ta = "[''0.3'']" and td = "[''0.8'']"
        and tp = "[''-70/-70'', ''-60/-20'']"])
    show "0 < link_channels outlink" by (rule assms(1))
    show "count_items (attacks ?s) \<le> link_channels outlink"
      "count_items (decays ?s) \<le> link_channels outlink"
      using assms(1) by (simp_all add: f default_items)
    show "malloc_ok example_host" by (simp add: example_host_def)
    show "items (attacks ?s) = Some [''0.3'']" "items (decays ?s) = Some [''0.8'']"
      "items (points ?s) = Some [''-70/-70'', ''-60/-20'']"
      by (simp_all only: f default_items)
    show "\<forall>t \<in> set [''0.3'']. 0 \<le> time_of example_host t"
      "\<forall>t \<in> set [''0.8'']. 0 \<le> time_of example_host t"
      by (simp_all add: default_parse)
    show "parsed_count example_host [''0.3''] = parsed_count example_host [''0.8'']"
      by (simp only: default_parse)
    show "points_acceptable example_host [''-70/-70'', ''-60/-20'']"
      by (rule default_parse)
    show "- (2 ^ 31) \<le> double_to_int (delay ?s * real_of_int (sample_rate outlink))"
      "double_to_int (delay ?s * real_of_int (sample_rate outlink)) < 2 ^ 31"
      "double_to_int (delay ?s * real_of_int (sample_rate outlink)) \<le> 0 \<or>
         frame_alloc_ok example_host \<and> get_buffer_err example_host = 0"
      using assms(2) by (simp_all add: delay_setup_ok_def)
  qed
qed

lemma default_config:
  "\<exists>s'. config_output example_host example_link compand_defaults = Inr s'"
proof -
  have "delay_setup_ok example_host example_link (compand_defaults\<lparr>delay := 0\<rparr>)"
    by (simp add: delay_setup_ok_def double_to_int_def example_link_def)
  from default_config_ok[OF _ this]
  show ?thesis by (simp add: compand_defaults_def example_link_def)
qed



definition example_stereo :: AVFilterLink where
  "example_stereo = \<lparr>link_channels = 2, sample_rate = 44100\<rparr>"




lemma stereo_config:
  "\<exists>s'. config_output example_host example_stereo compand_defaults = Inr s'"
proof -
  have "delay_setup_ok example_host example_stereo (compand_defaults\<lparr>delay := 0\<rparr>)"
    by (simp add: delay_setup_ok_def double_to_int_def example_stereo_def)
  from default_config_ok[OF _ this]
  show ?thesis by (simp add: compand_defaults_def example_stereo_def)
qed

text \<open>
  The knots of the default control points as they enter the soft-knee loop, for the
  soft-knee option \<open>cv\<close>: the start of the tail, the two points, and the point \<open>0/0\<close>
  that line 401 adds.
\<close>

definition default_knots :: "real \<Rightarrow> CompandSegment list" where
  "default_knots cv =
     [\<lparr>seg_x = (- 70 - 2 * cv) * (M_LN10 / 20), seg_y = 0, seg_a = 0, seg_b = 0\<rparr>,
      \<lparr>seg_x = 0, seg_y = 0, seg_a = 0, seg_b = 0\<rparr>,
      \<lparr>seg_x = - 70 * (M_LN10 / 20), seg_y = 0, seg_a = 0, seg_b = 0\<rparr>,
      \<lparr>seg_x = 0, seg_y = 0, seg_a = 0, seg_b = 0\<rparr>,
      \<lparr>seg_x = - 60 * (M_LN10 / 20), seg_y = 40 * (M_LN10 / 20), seg_a = 0, seg_b = 0\<rparr>,
      \<lparr>seg_x = 0, seg_y = 0, seg_a = 0, seg_b = 0\<rparr>,
      \<lparr>seg_x = 0, seg_y = 0, seg_a = 0, seg_b = 0\<rparr>,
      \<lparr>seg_x = 0, seg_y = 0, seg_a = 0, seg_b = 0\<rparr>,
      \<lparr>seg_x = 0, seg_y = 0, seg_a = 0, seg_b = 0\<rparr>,
      \<lparr>seg_x = 0, seg_y = 0, seg_a = 0, seg_b = 0\<rparr>,
      \<lparr>seg_x = 0, seg_y = 0, seg_a = 0, seg_b = 0\<rparr>,
      \<lparr>seg_x = 0, seg_y = 0, seg_a = 0, seg_b = 0\<rparr>]"

text \<open>The array after the control points have been read (lines 382--397).\<close>

definition default_parsed :: "CompandSegment list" where
  "default_parsed =
     [\<lparr>seg_x = 0, seg_y = 0, seg_a = 0, seg_b = 0\<rparr>,
      \<lparr>seg_x = 0, seg_y = 0, seg_a = 0, seg_b = 0\<rparr>,
      \<lparr>seg_x = - 70, seg_y = 0, seg_a = 0, seg_b = 0\<rparr>,
      \<lparr>seg_x = 0, seg_y = 0, seg_a = 0, seg_b = 0\<rparr>,
      \<lparr>seg_x = - 60, seg_y = 40, seg_a = 0, seg_b = 0\<rparr>,
      \<lparr>seg_x = 0, seg_y = 0, seg_a = 0, seg_b = 0\<rparr>,
      \<lparr>seg_x = 0, seg_y = 0, seg_a = 0, seg_b = 0\<rparr>,
      \<lparr>seg_x = 0, seg_y = 0, seg_a = 0, seg_b = 0\<rparr>,
      \<lparr>seg_x = 0, seg_y = 0, seg_a = 0, seg_b = 0\<rparr>,
      \<lparr>seg_x = 0, seg_y = 0, seg_a = 0, seg_b = 0\<rparr>,
      \<lparr>seg_x = 0, seg_y = 0, seg_a = 0, seg_b = 0\<rparr>,
      \<lparr>seg_x = 0, seg_y = 0, seg_a = 0, seg_b = 0\<rparr>]"

lemma default_points_loop:
  "points_loop example_host 2 0
     (''-70/-70|-60/-20'', replicate 12 \<lparr>seg_x = 0, seg_y = 0, seg_a = 0, seg_b = 0\<rparr>, 0) =
   Inr ('''', default_parsed, 2)"
proof -
  have ff: "sscanf_ff example_host ''-70/-70'' = Some (- 70, - 70)"
    "sscanf_ff example_host ''-60/-20'' = Some (- 60, - 20)"
    by (simp_all add: example_host_def example_sscanf_ff_def)
  have t: "strtok_r ''-70/-70|-60/-20'' = Some (''-70/-70'', ''-60/-20'')"
    "strtok_r ''-60/-20'' = Some (''-60/-20'', '''')"
    by (simp_all add: strtok_r_def)
  show ?thesis
    unfolding default_parsed_def
    apply (subst points_loop.simps)
    apply (simp add: t ff S_first_def eval_nat_numeral Let_def)
    apply (subst points_loop.simps)
    apply (simp add: t ff S_first_def eval_nat_numeral Let_def)
    apply (subst points_loop.simps)
    apply simp
    done
qed

lemma default_join:
  assumes "0 < cv"
  shows "join_loop 2 4
     (default_parsed[0 := \<lparr>seg_x = - 70 - 2 * cv, seg_y = 0, seg_a = 0, seg_b = 0\<rparr>]) =
     (4, default_parsed[0 := \<lparr>seg_x = - 70 - 2 * cv, seg_y = 0, seg_a = 0, seg_b = 0\<rparr>])"
  using assms
  apply (subst join_loop.simps)
  apply (simp add: default_parsed_def S_second_def Let_def)
  apply (subst join_loop.simps)
  apply (simp add: default_parsed_def S_second_def Let_def eval_nat_numeral)
  apply (subst join_loop.simps)
  apply simp
  done

lemma default_db_to_ln:
  assumes "0 < cv"
  shows "db_to_ln_loop 0 0
     (default_parsed[0 := \<lparr>seg_x = - 70 - 2 * cv, seg_y = 0, seg_a = 0, seg_b = 0\<rparr>]) =
   Inr (default_knots cv)"
proof -
  have c: "M_LN10 \<noteq> 0" "cv \<noteq> - 35" using assms by (simp_all add: M_LN10_def)
  show ?thesis
    unfolding default_parsed_def default_knots_def
    apply (subst db_to_ln_loop.simps)
    apply simp
    apply (subst db_to_ln_loop.simps)
    apply (simp add: c)
    apply (subst db_to_ln_loop.simps)
    apply (simp add: c)
    apply (subst db_to_ln_loop.simps)
    apply (simp add: c)
    apply (subst db_to_ln_loop.simps)
    apply (simp add: c)
    done
qed

lemma default_build_curve:
  assumes "0 < cv"
  shows "build_curve cv 0 radius 2 default_parsed =
     (case knee_loop radius 4 (default_knots cv) of
        Inl e \<Rightarrow> Inl e
      | Inr (i, segs3) \<Rightarrow>
          Inr (segs3[i - 3 := (segs3 ! (i - 3))\<lparr>seg_x := 0, seg_y := seg_y (segs3 ! (i - 2))\<rparr>]))"
proof -
  have n: "(if (2::nat) = 0 \<or> seg_x (default_parsed ! S_first (2 - 1)) \<noteq> 0 then 2 + 1 else 2) = (3::nat)"
    by (simp add: default_parsed_def S_first_def)
  have t: "default_parsed[S_second 0 := (default_parsed ! S_second 0)
                    \<lparr>seg_x := seg_x (default_parsed ! S_second 1) - 2 * cv,
                     seg_y := seg_y (default_parsed ! S_second 1)\<rparr>] =
           default_parsed[0 := \<lparr>seg_x = - 70 - 2 * cv, seg_y = 0, seg_a = 0, seg_b = 0\<rparr>]"
    by (simp add: default_parsed_def S_second_def)
  show ?thesis
    unfolding build_curve_def Let_def n t
    using default_join[OF assms] by (simp add: default_db_to_ln[OF assms])
qed

lemma default_config_curve:
  assumes "points s = ''-70/-70|-60/-20''" and "gain_dB s = 0" and "0 < curve_dB s"
  shows "config_curve example_host s =
     (case knee_loop (curve_dB s * M_LN10 / 20) 4 (default_knots (curve_dB s)) of
        Inl e \<Rightarrow> Inl e
      | Inr (i, segs3) \<Rightarrow>
          Inr (segs3[i - 3 := (segs3 ! (i - 3))\<lparr>seg_x := 0, seg_y := seg_y (segs3 ! (i - 2))\<rparr>]))"
proof -
  have r: "replicate (nat ((2 + 4) * 2)) \<lparr>seg_x = 0, seg_y = 0, seg_a = 0, seg_b = 0\<rparr> = replicate 12 \<lparr>seg_x = 0, seg_y = 0, seg_a = 0, seg_b = 0\<rparr>"
    by simp
  show ?thesis
    unfolding config_curve_def Let_def assms(1,2) default_items r default_points_loop
    using default_build_curve[OF assms(3)] by simp
qed



text \<open>
  The soft-knee loop rounds the two points and stops at the point \<open>0/0\<close>; line 467
  then sets the end of the curve.
\<close>

definition default_curve :: "real \<Rightarrow> CompandSegment list" where
  "default_curve cv =
     (let segs3 = knee_body (cv * M_LN10 / 20) 6
                     (knee_body (cv * M_LN10 / 20) 4 (default_knots cv))
      in segs3[5 := (segs3 ! 5)\<lparr>seg_x := 0, seg_y := seg_y (segs3 ! 6)\<rparr>])"

lemma default_knots_nth:
  "length (default_knots cv) = 12"
  "seg_x (default_knots cv ! 0) = (- 70 - 2 * cv) * (M_LN10 / 20)"
  "seg_y (default_knots cv ! 0) = 0"
  "seg_x (default_knots cv ! 2) = - 70 * (M_LN10 / 20)"
  "seg_y (default_knots cv ! 2) = 0"
  "seg_x (default_knots cv ! 4) = - 60 * (M_LN10 / 20)"
  "seg_y (default_knots cv ! 4) = 40 * (M_LN10 / 20)"
  "seg_x (default_knots cv ! 6) = 0"
  by (simp_all add: default_knots_def)

lemma default_knots_rest: "6 \<le> k \<Longrightarrow> k < 12 \<Longrightarrow> seg_x (default_knots cv ! k) = 0"
  by (auto simp: default_knots_def nth_Cons')

lemma M_LN10_scale_pos: "0 < M_LN10 / 20"
  by (simp add: M_LN10_def)

lemma default_knee_loop:
  "knee_loop r 4 (default_knots cv) =
     Inr (8, knee_body r 6 (knee_body r 4 (default_knots cv)))"
proof -
  let ?K = "default_knots cv"
  let ?A = "knee_body r 4 ?K"
  let ?B = "knee_body r 6 ?A"
  have c: "M_LN10 / 20 \<noteq> 0" by (rule M_LN10_scale_nonzero)
  have 1: "knee_loop r 4 ?K = knee_loop r 6 ?A"
    using c by (subst knee_loop.simps) (simp add: default_knots_nth)
  have "seg_x (?A ! 4) = seg_x (?K ! 4)" by (rule knee_body_above) simp
  then have 2: "knee_loop r 6 ?A = knee_loop r 8 ?B"
    using c by (subst knee_loop.simps) (simp add: default_knots_nth)
  have "seg_x (?B ! 6) = seg_x (?A ! 6)" by (rule knee_body_above) simp
  also have "\<dots> = seg_x (?K ! 6)" by (rule knee_body_above) simp
  finally have 3: "knee_loop r 8 ?B = Inr (8, ?B)"
    by (subst knee_loop.simps) (simp add: default_knots_nth)
  show ?thesis by (simp only: 1 2 3)
qed

lemma default_config_curve_result:
  assumes "points s = ''-70/-70|-60/-20''" and "gain_dB s = 0" and "0 < curve_dB s"
  shows "config_curve example_host s = Inr (default_curve (curve_dB s))"
  unfolding default_config_curve[OF assms] default_knee_loop default_curve_def Let_def
  by simp

lemma default_curve_entry:
  assumes "0 < cv"
  shows "seg_x (default_curve cv ! 1) = (- 70 - cv) * (M_LN10 / 20)"
    and "seg_y (default_curve cv ! 1) = 0"
proof -
  define r where "r = cv * M_LN10 / 20"
  let ?K = "default_knots cv"
  let ?A = "knee_body r 4 ?K"
  let ?B = "knee_body r 6 ?A"
  have c: "0 < M_LN10 / 20" by (rule M_LN10_scale_pos)
  have r: "0 < r" using assms c by (simp add: r_def)
  have lA: "6 < length ?A" by (simp add: default_knots_nth)
  have dx: "seg_x (?K ! 2) - seg_x (?K ! 0) = 2 * r"
    by (simp add: r_def default_knots_nth algebra_simps)
  have dy: "seg_y (?K ! 2) - seg_y (?K ! 0) = 0"
    by (simp add: default_knots_nth)
  have th: "atan2 0 (2 * r) = 0" using r by (simp add: atan2_def)
  have "sqrt ((2 * r)\<^sup>2 + 0\<^sup>2) = \<bar>2 * r\<bar>"
    by (simp only: zero_power2 add_0_right real_sqrt_abs)
  then have ln: "seg_len (?K ! 0) (?K ! 2) = 2 * r"
    unfolding seg_len_def dx dy using r by simp
  have rin: "knee_radius_in r (2 * r) = r"
    using r by (simp add: knee_radius_in_def FFMIN_def)
  have A1: "seg_x (?A ! 1) = seg_x (?K ! 2) - r" "seg_y (?A ! 1) = 0"
    using knee_body_knots[of 4 ?K r 1]
    by (simp_all add: default_knots_nth(1,3,5) dx dy th ln rin)
  have B1: "seg_x (?B ! 1) = seg_x (?A ! 1)" "seg_y (?B ! 1) = seg_y (?A ! 1)"
    using knee_body_knots[of 6 ?A r 1] lA by simp_all
  have F: "default_curve cv = ?B[5 := (?B ! 5)\<lparr>seg_x := 0, seg_y := seg_y (?B ! 6)\<rparr>]"
    by (simp add: default_curve_def Let_def r_def)
  have F1: "default_curve cv ! 1 = ?B ! 1"
    unfolding F by (rule nth_list_update_neq) simp
  show "seg_x (default_curve cv ! 1) = (- 70 - cv) * (M_LN10 / 20)"
    unfolding F1 B1 A1 by (simp add: default_knots_nth r_def algebra_simps)
  show "seg_y (default_curve cv ! 1) = 0"
    unfolding F1 B1 A1 ..
qed

lemma default_curve_length: "length (default_curve cv) = 12"
  by (simp add: default_curve_def Let_def default_knots_nth)

lemma default_curve_nonpos:
  assumes cv: "0 < cv" and k: "2 \<le> k" "k < 12"
  shows "seg_x (default_curve cv ! k) \<le> 0"
proof -
  let ?K = "default_knots cv"
  let ?r = "cv * M_LN10 / 20"
  let ?A = "knee_body ?r 4 ?K"
  let ?B = "knee_body ?r 6 ?A"
  have c: "0 < M_LN10 / 20" by (rule M_LN10_scale_pos)
  have r: "0 \<le> ?r" using cv c by simp
  have lK: "4 < length ?K" by (simp add: default_knots_nth)
  have lA: "6 < length ?A" by (simp add: default_knots_nth)
  have lB: "length ?B = 12" by (simp add: default_knots_nth)
  have oK: "seg_x (?K ! (4 - 4)) \<le> seg_x (?K ! (4 - 2))" "seg_x (?K ! (4 - 2)) \<le> seg_x (?K ! 4)"
    using mult_right_mono[of "- 70 - 2 * cv" "- 70" "M_LN10 / 20"] cv c
    by (simp_all add: default_knots_nth)
  have A2: "seg_x (?A ! 2) \<le> - 65 * (M_LN10 / 20)"
    using knee_body_within(4)[OF _ lK r oK] by (simp add: default_knots_nth)
  have Ak: "seg_x (?A ! j) = seg_x (?K ! j)" if "2 < j" for j
    using that knee_body_knots(1)[of 4 ?K ?r j] lK by simp
  have oA: "seg_x (?A ! (6 - 4)) \<le> seg_x (?A ! (6 - 2))" "seg_x (?A ! (6 - 2)) \<le> seg_x (?A ! 6)"
    using A2 c by (simp_all add: Ak default_knots_nth)
  have B3: "seg_x (?B ! 3) \<le> - 60 * (M_LN10 / 20)"
    using knee_body_within(2)[OF _ lA r oA] by (simp add: Ak default_knots_nth)
  have B4: "seg_x (?B ! 4) \<le> - 30 * (M_LN10 / 20)"
    using knee_body_within(4)[OF _ lA r oA] by (simp add: Ak default_knots_nth)
  have B2: "seg_x (?B ! 2) = seg_x (?A ! 2)"
    using knee_body_knots(1)[of 6 ?A ?r 2] lA by simp
  have Bk: "seg_x (?B ! j) = seg_x (?K ! j)" if "4 < j" for j
    using that knee_body_knots(1)[of 6 ?A ?r j] lA by (simp add: Ak)
  have F: "seg_x (default_curve cv ! k) = (if k = 5 then 0 else seg_x (?B ! k))"
    unfolding default_curve_def Let_def using k lB by (simp add: nth_list_update)
  consider "k = 2" | "k = 3" | "k = 4" | "k = 5" | "6 \<le> k" using k by linarith
  then show ?thesis
  proof cases
    case 1 then show ?thesis using A2 c unfolding F by (simp add: B2)
  next
    case 2 then show ?thesis using B3 c unfolding F by simp
  next
    case 3 then show ?thesis using B4 c unfolding F by simp
  next
    case 4 then show ?thesis unfolding F by simp
  next
    case 5 then show ?thesis using k unfolding F by (simp add: Bk default_knots_rest)
  qed
qed


lemma default_points_config:
  assumes "0 < link_channels outlink"
    and "delay_setup_ok example_host outlink s"
    and f: "attacks s = ''0.3''" "decays s = ''0.8''" "points s = ''-70/-70|-60/-20''"
  shows "\<exists>s'. config_output example_host outlink s = Inr s'"
proof (rule config_output_ok[where ta = "[''0.3'']" and td = "[''0.8'']"
      and tp = "[''-70/-70'', ''-60/-20'']"])
  show "0 < link_channels outlink" by (rule assms(1))
  show "count_items (attacks s) \<le> link_channels outlink"
    "count_items (decays s) \<le> link_channels outlink"
    using assms(1) by (simp_all add: f default_items)
  show "malloc_ok example_host" by (simp add: example_host_def)
  show "items (attacks s) = Some [''0.3'']" "items (decays s) = Some [''0.8'']"
    "items (points s) = Some [''-70/-70'', ''-60/-20'']"
    by (simp_all only: f default_items)
  show "\<forall>t \<in> set [''0.3'']. 0 \<le> time_of example_host t"
    "\<forall>t \<in> set [''0.8'']. 0 \<le> time_of example_host t"
    by (simp_all add: default_parse)
  show "parsed_count example_host [''0.3''] = parsed_count example_host [''0.8'']"
    by (simp only: default_parse)
  show "points_acceptable example_host [''-70/-70'', ''-60/-20'']"
    by (rule default_parse)
  show "- (2 ^ 31) \<le> double_to_int (delay s * real_of_int (sample_rate outlink))"
    "double_to_int (delay s * real_of_int (sample_rate outlink)) < 2 ^ 31"
    "double_to_int (delay s * real_of_int (sample_rate outlink)) \<le> 0 \<or>
       frame_alloc_ok example_host \<and> get_buffer_err example_host = 0"
    using assms(2) by (simp_all add: delay_setup_ok_def)
qed

lemma default_segments:
  assumes run: "config_output example_host outlink s = Inr s'"
    and p: "points s = ''-70/-70|-60/-20''" "gain_dB s = 0" "0 < curve_dB s"
  shows "segments s' = default_curve (curve_dB s)"
    and "in_min_lin s' = exp ((- 70 - curve_dB s) * (M_LN10 / 20))"
proof -
  have "segments s' = default_curve (curve_dB s) \<and>
        in_min_lin s' = exp ((- 70 - curve_dB s) * (M_LN10 / 20))"
  proof (rule config_output_fields[OF run])
    fix segs
    assume "config_curve example_host s = Inr segs" "segments s' = segs"
      "in_min_lin s' = exp (seg_x (segs ! 1))"
    then have "segs = default_curve (curve_dB s)" "segments s' = segs"
      "in_min_lin s' = exp (seg_x (segs ! 1))"
      by (simp_all add: default_config_curve_result[OF p])
    then show ?thesis
      by (simp only: default_curve_entry(1)[OF p(3)] simp_thms)
  qed
  then show "segments s' = default_curve (curve_dB s)"
    and "in_min_lin s' = exp ((- 70 - curve_dB s) * (M_LN10 / 20))"
    by simp_all
qed

lemma soft_config:
  "\<exists>s'. config_output example_host example_link (compand_defaults\<lparr>curve_dB := 30\<rparr>) = Inr s'"
  by (rule default_points_config)
     (simp_all add: example_link_def compand_defaults_def delay_setup_ok_def double_to_int_def)

lemma default_overrun:
  assumes run: "config_output example_host outlink compand_defaults = Inr s'" and v: "1 < v"
  shows "in_min_lin s' \<le> 1" and "length (segments s') = 12"
    and "\<forall>k. 2 \<le> k \<and> k < length (segments s') \<longrightarrow> seg_x (segments s' ! k) < ln v"
proof -
  have p: "points compand_defaults = ''-70/-70|-60/-20''" "gain_dB compand_defaults = 0"
    "0 < curve_dB compand_defaults"
    by (simp_all add: compand_defaults_def)
  have cv: "curve_dB compand_defaults = 1 / 100" by (simp add: compand_defaults_def)
  have seg: "segments s' = default_curve (1 / 100)"
    using default_segments(1)[OF run p] by (simp only: cv)
  have c: "0 < M_LN10 / 20" by (rule M_LN10_scale_pos)
  have "(- 70 - curve_dB compand_defaults) * (M_LN10 / 20) \<le> 0"
    using c by (simp add: cv mult_le_0_iff)
  then show "in_min_lin s' \<le> 1"
    unfolding default_segments(2)[OF run p] by simp
  show "length (segments s') = 12" by (simp add: seg default_curve_length)
  have "0 < ln v" using v by simp
  then show "\<forall>k. 2 \<le> k \<and> k < length (segments s') \<longrightarrow> seg_x (segments s' ! k) < ln v"
    using default_curve_nonpos[of "1 / 100"]
    by (auto simp: seg default_curve_length intro: le_less_trans)
qed
section \<open>The claims about the delay line\<close>

text \<open>
  C10.  A call of \<^verbatim>\<open>compand_delay\<close> or of \<^verbatim>\<open>compand_drain\<close> on a state with
  \<open>0 \<le> delay_index < delay_samples\<close> and \<open>0 \<le> delay_count \<le> delay_samples\<close>, whose
  delay buffers have \<open>delay_samples\<close> slots for each channel, never reads or writes a
  delay buffer out of its bounds, and the state it returns satisfies the same
  invariants.  The index advances by one modulo \<open>delay_samples\<close> for every sample.
\<close>

theorem delay_line_invariants:
  assumes "delay_inv s" and "delay_buffers_ok s" and "0 \<le> nb_samples frame"
  shows "compand_delay h s frame \<noteq> Inl DelayBufferOverrun \<and>
         compand_drain h s \<noteq> Inl DelayBufferOverrun \<and>
         (\<forall>s' out. compand_delay h s frame = Inr (s', out) \<longrightarrow>
            delay_inv s' \<and> delay_buffers_ok s' \<and>
            (0 < nb_channels s \<longrightarrow>
               delay_index s' = (delay_index s + nb_samples frame) mod delay_samples s)) \<and>
         (\<forall>s' f. compand_drain h s = Inr (s', f) \<longrightarrow>
            delay_inv s' \<and> delay_buffers_ok s' \<and>
            delay_index s' = (delay_index s + nb_samples f) mod delay_samples s) \<and>
         (\<forall>chan i st st'. loop_inv s st \<and> delay_sample h s frame chan i st = Inr st' \<longrightarrow>
            loop_inv s st' \<and> dl_dindex st' = (dl_dindex st + 1) mod delay_samples s)"
proof (intro conjI allI impI)
  show "compand_delay h s frame \<noteq> Inl DelayBufferOverrun"
    using assms by (rule compand_delay_no_overrun)
  show "compand_drain h s \<noteq> Inl DelayBufferOverrun"
    using assms(1,2) by (rule compand_drain_no_overrun)
next
  fix s' out assume run: "compand_delay h s frame = Inr (s', out)"
  note post = compand_delay_post[OF run assms]
  show "delay_inv s'" and "delay_buffers_ok s'" using post by simp_all
  show "delay_index s' = (delay_index s + nb_samples frame) mod delay_samples s"
    if "0 < nb_channels s" using post that by simp
next
  fix s' f assume run: "compand_drain h s = Inr (s', f)"
  note post = compand_drain_post[OF run assms(1,2)]
  show "delay_inv s'" and "delay_buffers_ok s'"
    and "delay_index s' = (delay_index s + nb_samples f) mod delay_samples s"
    using post by simp_all
next
  fix chan i st st'
  assume a: "loop_inv s st \<and> delay_sample h s frame chan i st = Inr st'"
  show "loop_inv s st'" using delay_sample_inv(2)[of s st h frame chan i st'] a by simp
  show "dl_dindex st' = (dl_dindex st + 1) mod delay_samples s"
    using delay_sample_dindex[of h s frame chan i st st'] a by simp
qed

theorem delay_line_invariants_witness:
  "delay_inv example_ctx \<and> delay_buffers_ok example_ctx \<and> 0 \<le> nb_samples example_frame \<and>
   compand_delay example_host example_ctx example_frame =
     Inr (example_ctx_fed, Some \<lparr>nb_samples = 1, extended_data = [[1 / 16]]\<rparr>) \<and>
   delay_inv example_ctx_fed \<and> delay_buffers_ok example_ctx_fed \<and>
   delay_index example_ctx_fed = (0 + 3) mod 2 \<and>
   compand_drain example_host example_ctx_fed =
     Inr (example_ctx_drained, \<lparr>nb_samples = 2, extended_data = [[1 / 8, 1 / 4]]\<rparr>) \<and>
   delay_inv example_ctx_drained \<and> delay_index example_ctx_drained = (1 + 2) mod 2"
proof -
  have f: "0 \<le> nb_samples example_frame" by (simp add: example_frame_def)
  have c: "0 < nb_channels example_ctx" by (simp add: example_ctx_def)
  have i: "delay_index example_ctx = 0" "delay_samples example_ctx = 2"
    "nb_samples example_frame = 3" "delay_index example_ctx_fed = 1"
    "delay_samples example_ctx_fed = 2"
    by (simp_all add: example_ctx_def example_frame_def example_ctx_fed_def)
  from delay_line_invariants[OF example_inv(1,2) f, of example_host] example_delay c
  have 1: "delay_inv example_ctx_fed \<and> delay_buffers_ok example_ctx_fed \<and>
           delay_index example_ctx_fed = (0 + 3) mod 2"
    by (simp add: i)
  from delay_line_invariants[OF example_inv(3,4) f, of example_host] example_drain
  have 2: "delay_inv example_ctx_drained \<and> delay_index example_ctx_drained = (1 + 2) mod 2"
    by (simp add: i)
  show ?thesis using example_inv(1,2) f example_delay example_drain 1 2 by simp
qed






section \<open>A stream that ends before the delay line is full\<close>

text \<open>
  \<^verbatim>\<open>compand_drain\<close> reads from \<^verbatim>\<open>delay_index\<close> on (line 299).  After a full delay line
  that is the oldest sample; while the line is filling it is the next slot to write,
  which holds no input.  One sample \<open>1/8\<close> fed to a delay line of two samples is
  stored in slot 0 and produces no output; the drain then emits one sample, read
  from slot 1.
\<close>

theorem short_stream_drain:
  "\<exists>s1 s2. compand_delay example_host example_ctx example_frame_eighth = Inr (s1, None) \<and>
     delay_frame s1 = Some \<lparr>nb_samples = 2, extended_data = [[1 / 8, 0]]\<rparr> \<and>
     delay_count s1 = 1 \<and> delay_index s1 = 1 \<and>
     compand_drain example_host s1 =
       Inr (s2, \<lparr>nb_samples = 1, extended_data = [[0]]\<rparr>) \<and>
     delay_count s2 = 0"
proof -
  let ?s1 = "example_ctx
            \<lparr>channels := [\<lparr>attack = 1, decay = 1, volume = 1 / 8\<rparr>],
             delay_frame := Some \<lparr>nb_samples = 2, extended_data = [[1 / 8, 0]]\<rparr>,
             delay_count := 1, delay_index := 1\<rparr>"
  have "compand_drain example_host ?s1 =
      Inr (?s1\<lparr>delay_count := 0, delay_index := 0\<rparr>, \<lparr>nb_samples = 1, extended_data = [[0]]\<rparr>)"
    by (simp add: compand_drain_def example_ctx_def
      example_host_def drain_channels_loop.simps drain_samples_loop.simps FFMIN_def
      get_volume_def ff_get_audio_buffer_def av_clipf_def MOD_def Let_def numeral_2_eq_2)
  with example_delay_filling show ?thesis by simp
qed
section \<open>The claims about the configuration and the curve\<close>












text \<open>
  C9, as the code has it.  \<^verbatim>\<open>update_volume\<close> computes \<open>delta\<close>, the level minus the
  volume, and adds \<open>delta\<close> times the attack coefficient when \<open>delta > 0\<close> and times the
  decay coefficient otherwise, each operation rounded to a \<^verbatim>\<open>float\<close>; the coefficients
  stay as they are.  When both coefficients are 1 and the subtraction is exact, the
  new volume is the level.  \<^verbatim>\<open>config_output\<close> sets the coefficient 1 for every time
  constant that is at most \<open>1 / sample_rate\<close>, a channel without an item of its own
  having the time constant 0.
\<close>

theorem update_volume_follows:
  "volume (update_volume cp inp) =
     to_float (volume cp + to_float (to_float (inp - volume cp) *
       (if to_float (inp - volume cp) > 0 then attack cp else decay cp))) \<and>
   attack (update_volume cp inp) = attack cp \<and> decay (update_volume cp inp) = decay cp \<and>
   (attack cp = 1 \<and> decay cp = 1 \<and> to_float (inp - volume cp) = inp - volume cp \<and>
    to_float inp = inp \<longrightarrow> volume (update_volume cp inp) = inp) \<and>
   (t \<le> 1 / real_of_int rate \<longrightarrow> time_coefficient rate t = 1) \<and>
   (config_output h outlink s = Inr s' \<and> 0 < sample_rate outlink \<and>
    items (attacks s) = Some ta \<and> items (decays s) = Some td \<and>
    k < nat (link_channels outlink) \<and>
    (k < length ta \<longrightarrow> time_of h (ta ! k) \<le> 1 / real_of_int (sample_rate outlink)) \<and>
    (k < length td \<longrightarrow> time_of h (td ! k) \<le> 1 / real_of_int (sample_rate outlink)) \<longrightarrow>
      k < length (channels s') \<and>
      attack (channels s' ! k) = 1 \<and> decay (channels s' ! k) = 1)"
proof -
  have 1: "volume (update_volume cp inp) =
     to_float (volume cp + to_float (to_float (inp - volume cp) *
       (if to_float (inp - volume cp) > 0 then attack cp else decay cp)))"
    by (simp add: update_volume_def Let_def)
  have 2: "attack (update_volume cp inp) = attack cp" "decay (update_volume cp inp) = decay cp"
    by (simp_all add: update_volume_def Let_def)
  have 3: "volume (update_volume cp inp) = inp"
    if "attack cp = 1" "decay cp = 1" "to_float (inp - volume cp) = inp - volume cp"
      "to_float inp = inp"
    using that by (simp add: update_volume_unit)
  have 4: "time_coefficient rate t = 1" if "t \<le> 1 / real_of_int rate"
    using that by (rule time_coefficient_short)
  have 5: "k < length (channels s') \<and>
      attack (channels s' ! k) = 1 \<and> decay (channels s' ! k) = 1"
    if run: "config_output h outlink s = Inr s'" and r: "0 < sample_rate outlink"
      and ta: "items (attacks s) = Some ta" and td: "items (decays s) = Some td"
      and k: "k < nat (link_channels outlink)"
      and a: "k < length ta \<longrightarrow> time_of h (ta ! k) \<le> 1 / real_of_int (sample_rate outlink)"
      and d: "k < length td \<longrightarrow> time_of h (td ! k) \<le> 1 / real_of_int (sample_rate outlink)"
  proof -
    have z: "0 \<le> 1 / real_of_int (sample_rate outlink)" using r by simp
    have "(if k < length ta then time_of h (ta ! k) else 0) \<le> 1 / real_of_int (sample_rate outlink)"
      "(if k < length td then time_of h (td ! k) else 0) \<le> 1 / real_of_int (sample_rate outlink)"
      using a d z by auto
    then have "time_coefficient (sample_rate outlink) (if k < length ta then time_of h (ta ! k) else 0) = 1"
      "time_coefficient (sample_rate outlink) (if k < length td then time_of h (td ! k) else 0) = 1"
      by (simp_all only: time_coefficient_short)
    with config_output_coefficients[OF run ta td k] show ?thesis by simp
  qed
  show ?thesis using 1 2 3 4 5 by blast
qed

theorem update_volume_follows_witness:
  "volume (update_volume \<lparr>attack = 1, decay = 1, volume = 1 / 4\<rparr> (1 / 2)) = 1 / 2 \<and>
   time_coefficient 44100 0 = 1 \<and>
   (\<exists>s'. config_output example_host example_stereo compand_defaults = Inr s' \<and>
      attack (channels s' ! 1) = 1 \<and> decay (channels s' ! 1) = 1)"
proof -
  have a: "volume (update_volume \<lparr>attack = 1, decay = 1, volume = 1 / 4\<rparr> (1 / 2)) = 1 / 2"
    using update_volume_follows[where cp = "\<lparr>attack = 1, decay = 1, volume = 1 / 4\<rparr>"
        and inp = "1 / 2", THEN conjunct2, THEN conjunct2, THEN conjunct2, THEN conjunct1]
    by simp
  have b: "time_coefficient 44100 0 = 1"
    using update_volume_follows[where rate = 44100 and t = 0, THEN conjunct2, THEN conjunct2,
        THEN conjunct2, THEN conjunct2, THEN conjunct1]
    by simp
  obtain s' where run: "config_output example_host example_stereo compand_defaults = Inr s'"
    using stereo_config by blast
  have i: "items (attacks compand_defaults) = Some [''0.3'']"
    "items (decays compand_defaults) = Some [''0.8'']"
    by (simp_all add: compand_defaults_def default_items)
  have k: "0 < sample_rate example_stereo" "1 < nat (link_channels example_stereo)"
    by (simp_all add: example_stereo_def)
  from update_volume_follows[where h = example_host and outlink = example_stereo
      and s = compand_defaults and s' = s' and ta = "[''0.3'']" and td = "[''0.8'']" and k = 1,
      THEN conjunct2, THEN conjunct2, THEN conjunct2, THEN conjunct2, THEN conjunct2] run i k
  have c: "attack (channels s' ! 1) = 1 \<and> decay (channels s' ! 1) = 1"
    by simp
  show ?thesis using a b c run by blast
qed

text \<open>
  With both coefficients 1 the volume need not be the level: from the volume 1 the
  level \<open>1 / 2 ^ 26\<close>, itself a \<^verbatim>\<open>float\<close>, gives \<open>delta = -1\<close> after rounding, and the volume 0.
\<close>

theorem update_volume_rounds:
  "to_float (1 / 2 ^ 26) = 1 / 2 ^ 26 \<and>
   volume (update_volume \<lparr>attack = 1, decay = 1, volume = 1\<rparr> (1 / 2 ^ 26)) = 0"
proof -
  have "volume (update_volume \<lparr>attack = 1, decay = 1, volume = 1\<rparr> (1 / 2 ^ 26)) =
      to_float (1 + to_float (to_float (1 / 2 ^ 26 - 1)))"
    by (simp only: update_volume_unit ChanParam.simps)
  also have "\<dots> = to_float (1 + to_float (- 1))" by (simp only: to_float_small_minus_one)
  also have "\<dots> = to_float (1 + - 1)" by (simp only: to_float_minus_one)
  also have "\<dots> = 0" by simp
  finally show ?thesis using to_float_small by simp
qed

text \<open>
  C5, as the code has it.  In one pass of the soft-knee loop (\<^verbatim>\<open>knee_body\<close>, for the knot
  \<^verbatim>\<open>L(2)\<close> at \<open>i - 2\<close>) the radius used towards the previous knot is the smaller of the
  radius and the \<^emph>\<open>whole\<close> length of that segment, and the radius used towards the next
  knot is the smaller of the radius and \<^emph>\<open>half\<close> the length of that segment.  The point
  \<^verbatim>\<open>L(3)\<close> is set at the first distance from the knot and the knot is moved by the
  second; no other knot moves.  For knots in the order of their input levels, the
  rounded corner stays between the neighbouring knots.
\<close>

theorem knee_radius_capped:
  "knee_radius_in radius len = min radius len \<and>
   knee_radius_out radius len = min radius (len / 2) \<and>
   (4 \<le> i \<and> i < length segs \<and> 0 \<le> radius \<longrightarrow>
      seg_len (knee_body radius i segs ! (i - 3)) (segs ! (i - 2)) =
        knee_radius_in radius (seg_len (segs ! (i - 4)) (segs ! (i - 2))) \<and>
      seg_len (segs ! (i - 2)) (knee_body radius i segs ! (i - 2)) =
        knee_radius_out radius (seg_len (segs ! (i - 2)) (segs ! i)) \<and>
      (\<forall>k. k \<noteq> i - 3 \<and> k \<noteq> i - 2 \<longrightarrow>
         seg_x (knee_body radius i segs ! k) = seg_x (segs ! k) \<and>
         seg_y (knee_body radius i segs ! k) = seg_y (segs ! k))) \<and>
   (4 \<le> i \<and> i < length segs \<and> 0 \<le> radius \<and>
    seg_x (segs ! (i - 4)) \<le> seg_x (segs ! (i - 2)) \<and>
    seg_x (segs ! (i - 2)) \<le> seg_x (segs ! i) \<longrightarrow>
      seg_x (segs ! (i - 4)) \<le> seg_x (knee_body radius i segs ! (i - 3)) \<and>
      seg_x (knee_body radius i segs ! (i - 3)) \<le> seg_x (segs ! (i - 2)) \<and>
      seg_x (segs ! (i - 2)) \<le> seg_x (knee_body radius i segs ! (i - 2)) \<and>
      seg_x (knee_body radius i segs ! (i - 2)) \<le>
        (seg_x (segs ! (i - 2)) + seg_x (segs ! i)) / 2)"
proof -
  have 1: "knee_radius_in radius len = min radius len"
    "knee_radius_out radius len = min radius (len / 2)"
    by (simp_all add: knee_radius_in_def knee_radius_out_def FFMIN_def min_def)
  have 2: "seg_len (knee_body radius i segs ! (i - 3)) (segs ! (i - 2)) =
        knee_radius_in radius (seg_len (segs ! (i - 4)) (segs ! (i - 2))) \<and>
      seg_len (segs ! (i - 2)) (knee_body radius i segs ! (i - 2)) =
        knee_radius_out radius (seg_len (segs ! (i - 2)) (segs ! i)) \<and>
      (\<forall>k. k \<noteq> i - 3 \<and> k \<noteq> i - 2 \<longrightarrow>
         seg_x (knee_body radius i segs ! k) = seg_x (segs ! k) \<and>
         seg_y (knee_body radius i segs ! k) = seg_y (segs ! k))"
    if "4 \<le> i" "i < length segs" "0 \<le> radius"
    using knee_body_distance[OF that] knee_body_knots[OF that(1,2)] by simp
  have 3: "seg_x (segs ! (i - 4)) \<le> seg_x (knee_body radius i segs ! (i - 3)) \<and>
      seg_x (knee_body radius i segs ! (i - 3)) \<le> seg_x (segs ! (i - 2)) \<and>
      seg_x (segs ! (i - 2)) \<le> seg_x (knee_body radius i segs ! (i - 2)) \<and>
      seg_x (knee_body radius i segs ! (i - 2)) \<le>
        (seg_x (segs ! (i - 2)) + seg_x (segs ! i)) / 2"
    if "4 \<le> i" "i < length segs" "0 \<le> radius"
      "seg_x (segs ! (i - 4)) \<le> seg_x (segs ! (i - 2))"
      "seg_x (segs ! (i - 2)) \<le> seg_x (segs ! i)"
    using knee_body_within[OF that] by simp
  show ?thesis using 1 2 3 by blast
qed

theorem knee_radius_capped_witness:
  "seg_len (knee_body (30 * M_LN10 / 20) 4 (default_knots 30) ! 1) (default_knots 30 ! 2) =
     knee_radius_in (30 * M_LN10 / 20) (seg_len (default_knots 30 ! 0) (default_knots 30 ! 2)) \<and>
   seg_len (default_knots 30 ! 2) (knee_body (30 * M_LN10 / 20) 4 (default_knots 30) ! 2) =
     knee_radius_out (30 * M_LN10 / 20) (seg_len (default_knots 30 ! 2) (default_knots 30 ! 4)) \<and>
   seg_x (default_knots 30 ! 0) \<le> seg_x (knee_body (30 * M_LN10 / 20) 4 (default_knots 30) ! 1) \<and>
   seg_x (knee_body (30 * M_LN10 / 20) 4 (default_knots 30) ! 1) \<le> seg_x (default_knots 30 ! 2) \<and>
   seg_x (default_knots 30 ! 2) \<le> seg_x (knee_body (30 * M_LN10 / 20) 4 (default_knots 30) ! 2) \<and>
   seg_x (knee_body (30 * M_LN10 / 20) 4 (default_knots 30) ! 2) \<le>
     (seg_x (default_knots 30 ! 2) + seg_x (default_knots 30 ! 4)) / 2"
proof -
  have c: "0 < M_LN10 / 20" by (rule M_LN10_scale_pos)
  have h: "(4::nat) \<le> 4" "4 < length (default_knots 30)" "0 \<le> 30 * M_LN10 / 20"
    "seg_x (default_knots 30 ! (4 - 4)) \<le> seg_x (default_knots 30 ! (4 - 2))"
    "seg_x (default_knots 30 ! (4 - 2)) \<le> seg_x (default_knots 30 ! 4)"
    using c by (simp_all add: default_knots_nth)
  have n: "(4::nat) - 3 = 1" "(4::nat) - 2 = 2" "(4::nat) - 4 = 0" by simp_all
  from knee_radius_capped[where radius = "30 * M_LN10 / 20" and i = 4
      and segs = "default_knots 30", THEN conjunct2, THEN conjunct2] h
  show ?thesis unfolding n by blast
qed

text \<open>
  The radius towards the previous knot is not capped at half the shorter adjacent
  segment.  With the default points and the soft-knee option 30 (dB), the first point
  has a tail of length \<open>60 c\<close> before it and a segment of length below \<open>42 c\<close> after it
  (\<open>c = ln 10 / 20\<close>); the curve that \<^verbatim>\<open>config_output\<close> builds starts at the distance \<open>30 c\<close>
  before the point.
\<close>

theorem knee_entry_radius_not_halved:
  "\<exists>s'. config_output example_host example_link (compand_defaults\<lparr>curve_dB := 30\<rparr>) = Inr s' \<and>
     seg_len (segments s' ! 1) (default_knots 30 ! 2) = 30 * (M_LN10 / 20) \<and>
     min (seg_len (default_knots 30 ! 0) (default_knots 30 ! 2))
         (seg_len (default_knots 30 ! 2) (default_knots 30 ! 4)) / 2 < 30 * (M_LN10 / 20)"
proof -
  define c where "c = M_LN10 / 20"
  have c: "0 < c" unfolding c_def by (rule M_LN10_scale_pos)
  obtain s' where
    run: "config_output example_host example_link (compand_defaults\<lparr>curve_dB := 30\<rparr>) = Inr s'"
    using soft_config by blast
  have seg: "segments s' = default_curve 30"
    using default_segments(1)[OF run] by (simp add: compand_defaults_def)
  have e: "seg_x (default_curve 30 ! 1) = - 100 * c" "seg_y (default_curve 30 ! 1) = 0"
    using default_curve_entry[of 30] by (simp_all add: c_def)
  have "seg_len (default_curve 30 ! 1) (default_knots 30 ! 2) = sqrt ((30 * c)\<^sup>2)"
    unfolding seg_len_def e by (simp add: default_knots_nth c_def [symmetric])
  also have "\<dots> = \<bar>30 * c\<bar>" by (rule real_sqrt_abs)
  also have "\<dots> = 30 * c" using c by simp
  finally have a: "seg_len (segments s' ! 1) (default_knots 30 ! 2) = 30 * (M_LN10 / 20)"
    unfolding seg c_def .
  have "seg_len (default_knots 30 ! 2) (default_knots 30 ! 4) = sqrt ((10 * c)\<^sup>2 + (40 * c)\<^sup>2)"
    unfolding seg_len_def by (simp add: default_knots_nth c_def [symmetric])
  also have "\<dots> < 60 * c"
  proof (rule real_less_lsqrt)
    show "0 \<le> 60 * c" using c by simp
    have "0 < c\<^sup>2" using c by simp
    then show "(10 * c)\<^sup>2 + (40 * c)\<^sup>2 < (60 * c)\<^sup>2"
      by (simp add: power_mult_distrib)
  qed
  finally have "seg_len (default_knots 30 ! 2) (default_knots 30 ! 4) / 2 < 30 * c" by simp
  then have b: "min (seg_len (default_knots 30 ! 0) (default_knots 30 ! 2))
         (seg_len (default_knots 30 ! 2) (default_knots 30 ! 4)) / 2 < 30 * (M_LN10 / 20)"
    unfolding c_def by (simp add: min_def)
  show ?thesis using run a b by blast
qed

text \<open>
  C2.  After \<^verbatim>\<open>config_output\<close>, for a level from \<open>in_min_lin\<close> up to 1 the scan of
  \<^verbatim>\<open>get_volume\<close> stops inside the array \<^verbatim>\<open>segments\<close>, at a knot that is not below the
  logarithm of the level, and \<^verbatim>\<open>get_volume\<close> returns.  The scan has no bound of its
  own: for a level whose logarithm is above every knot from index 2 on, it reads past
  the end of the array.
\<close>

theorem get_volume_scan:
  "(config_output h outlink s = Inr s' \<and> in_min_lin s' \<le> v \<and> v \<le> 1 \<longrightarrow>
      (\<exists>j. scan_segments (segments s') (ln v) 1 = Inr j \<and> j + 1 < length (segments s') \<and>
         ln v \<le> seg_x (segments s' ! (j + 1))) \<and>
      (\<exists>g. get_volume s' v = Inr g)) \<and>
   (in_min_lin s' \<le> v \<and> 0 < v \<and>
    (\<forall>k. 2 \<le> k \<and> k < length (segments s') \<longrightarrow> seg_x (segments s' ! k) < ln v) \<longrightarrow>
      get_volume s' v = Inl SegmentsOverrun)"
proof -
  have 1: "(\<exists>j. scan_segments (segments s') (ln v) 1 = Inr j \<and> j + 1 < length (segments s') \<and>
         ln v \<le> seg_x (segments s' ! (j + 1))) \<and>
      (\<exists>g. get_volume s' v = Inr g)"
    if "config_output h outlink s = Inr s'" "in_min_lin s' \<le> v" "v \<le> 1"
    using get_volume_within[OF that] by blast
  have 2: "get_volume s' v = Inl SegmentsOverrun"
    if "in_min_lin s' \<le> v" "0 < v"
      "\<forall>k. 2 \<le> k \<and> k < length (segments s') \<longrightarrow> seg_x (segments s' ! k) < ln v"
    using that by (rule get_volume_overrun)
  show ?thesis using 1 2 by blast
qed

theorem get_volume_scan_witness:
  "\<exists>s'. config_output example_host example_link compand_defaults = Inr s' \<and>
     (\<exists>j. scan_segments (segments s') (ln 1) 1 = Inr j \<and> j + 1 < length (segments s')) \<and>
     (\<exists>g. get_volume s' 1 = Inr g) \<and>
     get_volume s' 2 = Inl SegmentsOverrun"
proof -
  obtain s' where run: "config_output example_host example_link compand_defaults = Inr s'"
    using default_config by blast
  have lo: "in_min_lin s' \<le> 1" "in_min_lin s' \<le> 2"
    using default_overrun(1)[OF run, of 2] by simp_all
  from get_volume_scan[where h = example_host and outlink = example_link
      and s = compand_defaults and s' = s' and v = 1, THEN conjunct1] run lo(1)
  have a: "(\<exists>j. scan_segments (segments s') (ln 1) 1 = Inr j \<and> j + 1 < length (segments s')) \<and>
     (\<exists>g. get_volume s' 1 = Inr g)"
    by blast
  from get_volume_scan[where s' = s' and v = 2, THEN conjunct2] lo(2)
    default_overrun(3)[OF run, of 2]
  have b: "get_volume s' 2 = Inl SegmentsOverrun" by simp
  show ?thesis using run a b by blast
qed

text \<open>
  With the default options the array \<^verbatim>\<open>segments\<close> has 12 entries, none of them from
  index 2 on with a positive \<open>x\<close>.  For the level 2 the scan of \<^verbatim>\<open>get_volume\<close> passes all
  of them and reads \<^verbatim>\<open>segments[12]\<close>.
\<close>

theorem default_curve_overrun:
  "\<exists>s'. config_output example_host example_link compand_defaults = Inr s' \<and>
     length (segments s') = 12 \<and> in_min_lin s' \<le> 2 \<and>
     scan_segments (segments s') (ln 2) 1 = Inl SegmentsOverrun \<and>
     get_volume s' 2 = Inl SegmentsOverrun"
proof -
  obtain s' where run: "config_output example_host example_link compand_defaults = Inr s'"
    using default_config by blast
  note f = default_overrun[OF run, of 2, simplified]
  have "scan_segments (segments s') (ln 2) 1 = Inl SegmentsOverrun"
    using f(3) by (intro scan_segments_overrun) simp
  moreover have "get_volume s' 2 = Inl SegmentsOverrun"
    using f by (intro get_volume_overrun) simp_all
  moreover have "in_min_lin s' \<le> 2" using f(1) by simp
  ultimately show ?thesis using run f(2) by blast
qed
end
